theory Spec2Isabelle
  imports Main "HOL-Library.Word"
begin

unbundle bit_operations_syntax

section \<open>Data model\<close>

text \<open>
  The program works on \<^verbatim>\<open>std::vector<int>\<close> (\<^verbatim>\<open>vi\<close>): a list of integers. Bit
  sequences are such lists with entries 0 and 1. Sizes and indices are natural numbers;
  the parameters are restricted to \<open>n + 1 < 2 ^ 31\<close> wherever a property needs the \<^verbatim>\<open>int\<close>
  index arithmetic of the C++ to stay in range.
  Whatever the C++ leaves undefined or aborts on is a value of \<open>error\<close>; a function that
  can meet one returns \<open>error + 'a\<close>, with \<open>Inl\<close> for the failure.
\<close>

type_synonym vi = "int list"

datatype error =
    Undefined_Shift      \<comment> \<open>\<^verbatim>\<open><<\<close> or \<^verbatim>\<open>>>\<close> of an \<^verbatim>\<open>int\<close> by 32 or more\<close>
  | Signed_Overflow      \<comment> \<open>\<^verbatim>\<open>int\<close> addition leaving the 32-bit range\<close>
  | Out_Of_Range         \<comment> \<open>a read, write, erase or insert outside the vector\<close>
  | Empty_Dereference    \<comment> \<open>dereferencing \<^verbatim>\<open>min_element\<close> of an empty range\<close>
  | Assertion_Failed     \<comment> \<open>a failed \<^verbatim>\<open>assert\<close>\<close>

definition bits :: "vi \<Rightarrow> bool" where
  "bits xs \<longleftrightarrow> list_all (\<lambda>b. b = 0 \<or> b = 1) xs"

section \<open>Bit-integer codec\<close>

text \<open>
  \<^verbatim>\<open>int\<close> is a 32-bit two's complement integer. A shift by 32 or more is undefined; a
  left shift below 32 wraps to 32 bits, a right shift is arithmetic.
\<close>

definition shl :: "int \<Rightarrow> nat \<Rightarrow> error + int" where
  "shl a j = (if j < 32 then Inr (signed_take_bit 31 (push_bit j a)) else Inl Undefined_Shift)"

definition shr :: "int \<Rightarrow> nat \<Rightarrow> error + int" where
  "shr a j = (if j < 32 then Inr (drop_bit j a) else Inl Undefined_Shift)"

definition add_int :: "int \<Rightarrow> int \<Rightarrow> error + int" where
  "add_int a b = (if - (2 ^ 31) \<le> a + b \<and> a + b < 2 ^ 31 then Inr (a + b) else Inl Signed_Overflow)"

text \<open>The expression \<^verbatim>\<open>(i & (1 << j)) >> j\<close> of \<^verbatim>\<open>toBinary\<close>.\<close>

definition bit_at :: "int \<Rightarrow> nat \<Rightarrow> error + int" where
  "bit_at i j = (case shl 1 j of Inl e \<Rightarrow> Inl e | Inr m \<Rightarrow> shr (i AND m) j)"

text \<open>
  \<^verbatim>\<open>toBinary(i, N)\<close>: the vector \<open>out\<close> of \<open>N\<close> zeros, then the loop over \<open>j\<close> from 0 below
  \<open>N\<close> writing \<open>out[j]\<close>.
\<close>

function toBinary_loop :: "int \<Rightarrow> nat \<Rightarrow> nat \<Rightarrow> vi \<Rightarrow> error + vi" where
  "toBinary_loop i N j out =
     (if j < N then
        (case bit_at i j of
           Inl e \<Rightarrow> Inl e
         | Inr b \<Rightarrow> toBinary_loop i N (Suc j) (out[j := b]))
      else Inr out)"
  by pat_completeness auto
termination
  by (relation "measure (\<lambda>(i, N, j, out). N - j)") auto

declare toBinary_loop.simps [simp del]

definition toBinary :: "int \<Rightarrow> nat \<Rightarrow> error + vi" where
  "toBinary i N = toBinary_loop i N 0 (replicate N 0)"

text \<open>
  \<^verbatim>\<open>fromBinary(bin, N)\<close>: the loop over \<open>j\<close> from 0 below \<open>N\<close> adding \<^verbatim>\<open>bin[j] << j\<close> to
  \<open>out\<close>; reading \<open>bin[j]\<close> beyond the vector is a failure.
\<close>

function fromBinary_loop :: "vi \<Rightarrow> nat \<Rightarrow> nat \<Rightarrow> int \<Rightarrow> error + int" where
  "fromBinary_loop bin N j out =
     (if j < N then
        (if length bin \<le> j then Inl Out_Of_Range
         else case shl (bin ! j) j of
           Inl e \<Rightarrow> Inl e
         | Inr t \<Rightarrow>
             (case add_int out t of
                Inl e \<Rightarrow> Inl e
              | Inr out' \<Rightarrow> fromBinary_loop bin N (Suc j) out'))
      else Inr out)"
  by pat_completeness auto
termination
  by (relation "measure (\<lambda>(bin, N, j, out). N - j)") auto

declare fromBinary_loop.simps [simp del]

definition fromBinary :: "vi \<Rightarrow> nat \<Rightarrow> error + int" where
  "fromBinary bin N = fromBinary_loop bin N 0 0"

section \<open>Period computation\<close>

text \<open>
  The inner loop \<^verbatim>\<open>while (R < n && s[R-L] == s[R]) R++;\<close> of \<^verbatim>\<open>ComputeZ\<close>. At both
  places where it runs, \<open>L\<close> has just been set to \<open>i\<close> with \<open>i \<le> R\<close>, so \<open>R - L\<close> is
  never negative.
\<close>

function extend :: "vi \<Rightarrow> nat \<Rightarrow> nat \<Rightarrow> nat" where
  "extend s L R = (if R < length s \<and> s ! (R - L) = s ! R then extend s L (Suc R) else R)"
  by pat_completeness auto
termination
  by (relation "measure (\<lambda>(s, L, R). length s - R)") auto

declare extend.simps [simp del]

text \<open>
  The main loop of \<^verbatim>\<open>ComputeZ\<close> over \<open>i\<close> from 1 below \<open>n\<close>, with the variables
  \<open>L\<close>, \<open>R\<close> and the vector \<open>z\<close>. The entries of \<open>z\<close> are the lengths \<open>R - L\<close>, kept as
  natural numbers. The read \<open>z[k-1]\<close> with \<open>k = i - L\<close> is checked: it leaves the vector
  unless \<open>L < i\<close>.
\<close>

function ComputeZ_loop :: "vi \<Rightarrow> nat \<Rightarrow> nat \<Rightarrow> nat \<Rightarrow> nat list \<Rightarrow> error + nat list" where
  "ComputeZ_loop s i L R z =
     (if i < length s then
        (if i > R then
           (let R' = extend s i i
            in ComputeZ_loop s (Suc i) i (R' - 1) (z[i - 1 := R' - i]))
         else if i \<le> L \<or> length z < i - L then Inl Out_Of_Range
         else
           (let k = i - L in
            if z ! (k - 1) < R - i + 1
            then ComputeZ_loop s (Suc i) L R (z[i - 1 := z ! (k - 1)])
            else
              (let R' = extend s i R
               in ComputeZ_loop s (Suc i) i (R' - 1) (z[i - 1 := R' - i]))))
      else Inr z)"
  by pat_completeness auto
termination
  by (relation "measure (\<lambda>(s, i, L, R, z). length s - i)") auto

declare ComputeZ_loop.simps [simp del]

definition ComputeZ :: "vi \<Rightarrow> error + nat list" where
  "ComputeZ s = ComputeZ_loop s 1 0 0 (replicate (length s) 0)"

text \<open>The loop of \<^verbatim>\<open>ComputePeriods\<close> over \<open>i\<close> from 1 to \<open>n\<close>, appending to \<open>periods\<close>.\<close>

function ComputePeriods_loop :: "nat \<Rightarrow> nat list \<Rightarrow> nat \<Rightarrow> nat list \<Rightarrow> nat list" where
  "ComputePeriods_loop n z i periods =
     (if i \<le> n then
        ComputePeriods_loop n z (Suc i) (if i + z ! (i - 1) = n then periods @ [i] else periods)
      else periods)"
  by pat_completeness auto
termination
  by (relation "measure (\<lambda>(n, z, i, periods). Suc n - i)") auto

declare ComputePeriods_loop.simps [simp del]

definition ComputePeriods :: "vi \<Rightarrow> error + nat list" where
  "ComputePeriods s =
     (case ComputeZ s of
        Inl e \<Rightarrow> Inl e
      | Inr z \<Rightarrow> Inr (ComputePeriods_loop (length s) z 1 []))"

text \<open>
  \<^verbatim>\<open>std::min_element\<close> returns the first smallest element, and the end of the range
  when the range is empty; \<^verbatim>\<open>ComputeMinPeriod\<close> dereferences what it returns.
\<close>

fun min_element :: "nat list \<Rightarrow> nat option" where
  "min_element [] = None"
| "min_element (x # xs) =
     (case min_element xs of
        None \<Rightarrow> Some x
      | Some m \<Rightarrow> Some (if m < x then m else x))"

definition ComputeMinPeriod :: "vi \<Rightarrow> error + nat" where
  "ComputeMinPeriod s =
     (case ComputePeriods s of
        Inl e \<Rightarrow> Inl e
      | Inr periods \<Rightarrow>
          (case min_element periods of
             None \<Rightarrow> Inl Empty_Dereference
           | Some m \<Rightarrow> Inr m))"

section \<open>Encoder and decoder\<close>

text \<open>
  \<^verbatim>\<open>ceil(log2(n))\<close> for an \<^verbatim>\<open>int n\<close> with \<open>n \<ge> 1\<close>: the least \<open>k\<close> with \<open>n \<le> 2 ^ k\<close>. (The
  double-precision logarithm is exact enough for every positive 32-bit \<open>n\<close>. For
  \<open>n = 0\<close> the C++ converts minus infinity to \<^verbatim>\<open>int\<close>, which is undefined; the
  properties below assume \<open>0 < n\<close>.)
\<close>

fun ceil_log2 :: "nat \<Rightarrow> nat" where
  "ceil_log2 n = (if n \<le> 1 then 0 else Suc (ceil_log2 ((n + 1) div 2)))"

declare ceil_log2.simps [simp del]

text \<open>The loop \<^verbatim>\<open>for (j = i + period + 1; j < i + p; j++) out[j] = 0;\<close> of \<^verbatim>\<open>encode\<close>.\<close>

function zero_fill :: "vi \<Rightarrow> nat \<Rightarrow> nat \<Rightarrow> error + vi" where
  "zero_fill out j hi =
     (if j < hi then
        (if length out \<le> j then Inl Out_Of_Range else zero_fill (out[j := 0]) (Suc j) hi)
      else Inr out)"
  by pat_completeness auto
termination
  by (relation "measure (\<lambda>(out, j, hi). hi - j)") auto

declare zero_fill.simps [simp del]

text \<open>
  The body of \<^verbatim>\<open>if (period < p)\<close> in \<^verbatim>\<open>encode\<close>: erase the positions from \<open>i + p\<close> below
  \<open>i + l\<close>, write the marker 1 at \<open>i + period\<close> and zeros up to \<open>i + p\<close>, append the
  index \<open>i\<close> in \<open>log2_n\<close> bits and a 0, and assert the length.
\<close>

definition correct_window :: "nat \<Rightarrow> nat \<Rightarrow> nat \<Rightarrow> nat \<Rightarrow> vi \<Rightarrow> nat \<Rightarrow> nat \<Rightarrow> error + vi" where
  "correct_window n l p log2_n out i period =
     (if l < p \<or> length out < i + l then Inl Out_Of_Range
      else
        (let out1 = take (i + p) out @ drop (i + l) out in
         if length out1 \<le> i + period then Inl Out_Of_Range
         else
           (case zero_fill (out1[i + period := 1]) (i + period + 1) (i + p) of
              Inl e \<Rightarrow> Inl e
            | Inr out2 \<Rightarrow>
                (case toBinary (int i) log2_n of
                   Inl e \<Rightarrow> Inl e
                 | Inr index_encoding \<Rightarrow>
                     (let out3 = out2 @ index_encoding @ [0] in
                      if length out3 = n + 1 then Inr out3 else Inl Assertion_Failed)))))"

text \<open>
  The loop \<^verbatim>\<open>for (i = 0; i < (n+1)-(l-1); i++)\<close> of \<^verbatim>\<open>encode\<close>, with the vector \<open>out\<close>
  and the flag \<open>found\<close>. The bound is an \<^verbatim>\<open>int\<close>, \<open>i\<close> starts at 0: \<open>i\<close> is below it
  exactly when \<open>i < n + 2 - l\<close> on natural numbers.
\<close>

function encode_scan :: "nat \<Rightarrow> nat \<Rightarrow> nat \<Rightarrow> nat \<Rightarrow> vi \<Rightarrow> nat \<Rightarrow> bool \<Rightarrow> error + (vi \<times> bool)" where
  "encode_scan n l p log2_n out i found =
     (if i < n + 2 - l then
        (if length out < i + l then Inl Out_Of_Range
         else
           (case ComputeMinPeriod (take l (drop i out)) of
              Inl e \<Rightarrow> Inl e
            | Inr period \<Rightarrow>
                if period < p then
                  (case correct_window n l p log2_n out i period of
                     Inl e \<Rightarrow> Inl e
                   | Inr out' \<Rightarrow> encode_scan n l p log2_n out' (Suc i) True)
                else encode_scan n l p log2_n out (Suc i) found))
      else Inr (out, found))"
  by pat_completeness auto
termination
  by (relation "measure (\<lambda>(n, l, p, log2_n, out, i, found). n + 2 - l - i)") auto

declare encode_scan.simps [simp del]

text \<open>
  The loop \<^verbatim>\<open>while (true)\<close> of \<^verbatim>\<open>encode\<close>: one scan, and again when it found a
  violation. Nothing in the code bounds the number of scans, so the loop is a partial
  function: \<open>None\<close> is a run that never returns.
\<close>

partial_function (option) encode_loop :: "nat \<Rightarrow> nat \<Rightarrow> nat \<Rightarrow> nat \<Rightarrow> vi \<Rightarrow> (error + vi) option" where
  "encode_loop n l p log2_n out =
     (case encode_scan n l p log2_n out 0 False of
        Inl e \<Rightarrow> Some (Inl e)
      | Inr (out', found) \<Rightarrow>
          if found then encode_loop n l p log2_n out' else Some (Inr out'))"

declare encode_loop.simps [code]

definition encode :: "vi \<Rightarrow> nat \<Rightarrow> nat \<Rightarrow> nat \<Rightarrow> (error + vi) option" where
  "encode in' n l p = encode_loop n l p (ceil_log2 n) (in' @ [1])"

text \<open>The loop \<^verbatim>\<open>while (in[j] == 0) j--;\<close> of \<^verbatim>\<open>decode\<close>.\<close>

fun scan_back :: "vi \<Rightarrow> nat \<Rightarrow> error + nat" where
  "scan_back xs 0 =
     (if length xs \<le> 0 then Inl Out_Of_Range
      else if xs ! 0 = 0 then Inl Out_Of_Range else Inr 0)"
| "scan_back xs (Suc j) =
     (if length xs \<le> Suc j then Inl Out_Of_Range
      else if xs ! Suc j = 0 then scan_back xs j else Inr (Suc j))"

text \<open>
  The loop \<^verbatim>\<open>for (i = index + period; i < index + l; i++) in[i] = in[i-period];\<close> of
  \<^verbatim>\<open>decode\<close>. It starts at \<open>index + period = j\<close>, a position of the vector; \<open>period\<close>
  is the \<^verbatim>\<open>int\<close> \<open>j - index\<close>.
\<close>

function unwrap :: "vi \<Rightarrow> nat \<Rightarrow> nat \<Rightarrow> int \<Rightarrow> error + vi" where
  "unwrap xs i hi period =
     (if i < hi then
        (if length xs \<le> i \<or> int i - period < 0 \<or> int (length xs) \<le> int i - period
         then Inl Out_Of_Range
         else unwrap (xs[i := xs ! nat (int i - period)]) (Suc i) hi period)
      else Inr xs)"
  by pat_completeness auto
termination
  by (relation "measure (\<lambda>(xs, i, hi, period). hi - i)") auto

declare unwrap.simps [simp del]

text \<open>
  The first part of the body of the loop \<^verbatim>\<open>while (in[n] == 0)\<close> of \<^verbatim>\<open>decode\<close>: erase
  the last element, read the last \<open>log2_n\<close> elements as \<open>index\<close> and erase them.
\<close>

definition pop_index :: "nat \<Rightarrow> vi \<Rightarrow> error + (int \<times> vi)" where
  "pop_index log2_n in' =
     (if in' = [] then Inl Out_Of_Range
      else
        (let in1 = butlast in' in
         if length in1 < log2_n then Inl Out_Of_Range
         else
           (case fromBinary (drop (length in1 - log2_n) in1) log2_n of
              Inl e \<Rightarrow> Inl e
            | Inr index \<Rightarrow> Inr (index, take (length in1 - log2_n) in1))))"

text \<open>
  The whole body: after \<open>pop_index\<close>, scan back from \<open>index + p - 1\<close> for the marker,
  insert \<open>l - p\<close> zeros at \<open>index + p\<close>, replay the period, and assert the length.
\<close>

definition decode_step :: "nat \<Rightarrow> nat \<Rightarrow> nat \<Rightarrow> nat \<Rightarrow> vi \<Rightarrow> error + vi" where
  "decode_step n l p log2_n in' =
     (case pop_index log2_n in' of
        Inl e \<Rightarrow> Inl e
      | Inr (index, in2) \<Rightarrow>
          (let top = index + int p in
           if top - 1 < 0 then Inl Out_Of_Range
           else
             (case scan_back in2 (nat (top - 1)) of
                Inl e \<Rightarrow> Inl e
              | Inr j \<Rightarrow>
                  (let period = int j - index in
                   if l < p \<or> int (length in2) < top then Inl Out_Of_Range
                   else
                     (let in3 = take (nat top) in2 @ replicate (l - p) 0 @ drop (nat top) in2 in
                      case unwrap in3 j (nat (index + int l)) period of
                        Inl e \<Rightarrow> Inl e
                      | Inr in4 \<Rightarrow>
                          if length in4 = n + 1 then Inr in4
                          else Inl Assertion_Failed)))))"

text \<open>
  The loop \<^verbatim>\<open>while (in[n] == 0)\<close> and the final erase of the last element. The loop
  has no bound either.
\<close>

partial_function (option) decode_loop :: "nat \<Rightarrow> nat \<Rightarrow> nat \<Rightarrow> nat \<Rightarrow> vi \<Rightarrow> (error + vi) option" where
  "decode_loop n l p log2_n in' =
     (if length in' \<le> n then Some (Inl Out_Of_Range)
      else if in' ! n = 0 then
        (case decode_step n l p log2_n in' of
           Inl e \<Rightarrow> Some (Inl e)
         | Inr in'' \<Rightarrow> decode_loop n l p log2_n in'')
      else Some (Inr (butlast in')))"

declare decode_loop.simps [code]

definition decode :: "vi \<Rightarrow> nat \<Rightarrow> nat \<Rightarrow> nat \<Rightarrow> (error + vi) option" where
  "decode out n l p = decode_loop n l p (ceil_log2 n) out"

section \<open>Reference notions\<close>

text \<open>The \<open>N\<close> low binary digits of \<open>v\<close>, least significant first.\<close>

definition bin_of :: "int \<Rightarrow> nat \<Rightarrow> vi" where
  "bin_of v N = map (\<lambda>k. of_bool (bit v k)) [0..<N]"

text \<open>The length of the longest common prefix of two lists.\<close>

fun lcp :: "'a list \<Rightarrow> 'a list \<Rightarrow> nat" where
  "lcp (x # xs) (y # ys) = (if x = y then Suc (lcp xs ys) else 0)"
| "lcp _ _ = 0"

text \<open>
  The Z-array of the specification: \<open>Zarr s i\<close> is the length of the longest common prefix
  of \<open>s\<close> and the suffix of \<open>s\<close> starting at \<open>i\<close> (0 at \<open>i = length s\<close>).
\<close>

definition Zarr :: "vi \<Rightarrow> nat \<Rightarrow> nat" where
  "Zarr s i = lcp s (drop i s)"

text \<open>\<open>q\<close> is a period of \<open>s\<close>: \<open>1 \<le> q \<le> length s\<close> and \<open>s[t] = s[t+q]\<close> wherever both exist.\<close>

definition is_period :: "vi \<Rightarrow> nat \<Rightarrow> bool" where
  "is_period s q \<longleftrightarrow>
     1 \<le> q \<and> q \<le> length s \<and> list_all (\<lambda>t. s ! t = s ! (t + q)) [0..<length s - q]"

text \<open>
  The parameters the driver runs the encoder with: \<open>n\<close> a positive \<^verbatim>\<open>int\<close> with \<open>n + 1\<close> still
  an \<^verbatim>\<open>int\<close> (the code computes it), \<open>p \<ge> 1\<close>, and \<open>l\<close> equal to \<^verbatim>\<open>min_l\<close>, that is
  \<open>p + ceil_log2 n + 1\<close>: then a correction removes as many elements as it appends.
\<close>

definition valid_params :: "nat \<Rightarrow> nat \<Rightarrow> nat \<Rightarrow> bool" where
  "valid_params n l p \<longleftrightarrow> 0 < n \<and> n + 1 < 2 ^ 31 \<and> 1 \<le> p \<and> l = p + ceil_log2 n + 1"

text \<open>
  The history of the working sequence of \<open>encode\<close> on the input \<open>x\<close>, the latest value
  first: it starts as \<open>x @ [1]\<close>, and each further value comes from the one before by
  the correction of a window at \<open>i\<close> that has a period \<open>q < p\<close>.
\<close>

inductive trace :: "nat \<Rightarrow> nat \<Rightarrow> nat \<Rightarrow> vi \<Rightarrow> vi list \<Rightarrow> bool" for n l p x where
  trace_start: "trace n l p x [x @ [1]]"
| trace_step:
    "trace n l p x (s # tr) \<Longrightarrow> i + l \<le> n + 1 \<Longrightarrow> 1 \<le> q \<Longrightarrow> q < p \<Longrightarrow>
     is_period (take l (drop i s)) q \<Longrightarrow>
     correct_window n l p (ceil_log2 n) s i q = Inr s' \<Longrightarrow>
     trace n l p x (s' # s # tr)"

text \<open>
  The values of \<open>in\<close> at the head of the loop of \<open>decode\<close> on the input \<open>out\<close>: \<open>out\<close>
  itself, and the result of one more iteration whenever the loop condition holds.
\<close>

inductive decode_reach :: "nat \<Rightarrow> nat \<Rightarrow> nat \<Rightarrow> vi \<Rightarrow> vi \<Rightarrow> bool" for n l p out where
  reach_start: "decode_reach n l p out out"
| reach_step:
    "decode_reach n l p out s \<Longrightarrow> n < length s \<Longrightarrow> s ! n = 0 \<Longrightarrow>
     decode_step n l p (ceil_log2 n) s = Inr s' \<Longrightarrow>
     decode_reach n l p out s'"

code_pred (modes: i \<Rightarrow> i \<Rightarrow> i \<Rightarrow> i \<Rightarrow> i \<Rightarrow> bool, i \<Rightarrow> i \<Rightarrow> i \<Rightarrow> i \<Rightarrow> o \<Rightarrow> bool) decode_reach .

section \<open>Properties of the bit-integer codec\<close>

lemma bit_at_value:
  assumes "0 \<le> v" "v < 2 ^ 31" "j < 32"
  shows "bit_at v j = Inr (of_bool (bit v j))"
proof -
  have hi: "\<not> bit v q" if "31 \<le> q" for q
  proof -
    have "(2::int) ^ 31 \<le> 2 ^ q" using that by (intro power_increasing) simp_all
    then have "v < 2 ^ q" using assms(2) by linarith
    then have "take_bit q v = v" using assms(1) by (simp add: take_bit_int_eq_self)
    then show ?thesis
      by (metis bit_take_bit_iff less_irrefl)
  qed
  have "drop_bit j (v AND signed_take_bit 31 (push_bit j 1)) = of_bool (bit v j)"
  proof (rule bit_eqI)
    fix q
    show "bit (drop_bit j (v AND signed_take_bit 31 (push_bit j 1))) q = bit (of_bool (bit v j) :: int) q"
      using assms(3) hi [of "j + q"] hi[of j]
      by (auto simp add: bit_simps min_def)
  qed
  then show ?thesis using assms(3)
    by (simp add: bit_at_def shl_def shr_def)
qed

lemma toBinary_loop_value:
  assumes "0 \<le> v" "v < 2 ^ 31" "N \<le> 32"
  shows "length out = N \<Longrightarrow> j \<le> N \<Longrightarrow>
         toBinary_loop v N j out = Inr (take j out @ map (\<lambda>k. of_bool (bit v k)) [j..<N])"
proof (induction "N - j" arbitrary: j out)
  case 0
  then show ?case by (simp add: toBinary_loop.simps)
next
  case (Suc d)
  then have j: "j < N" by simp
  have step: "toBinary_loop v N j out = toBinary_loop v N (Suc j) (out[j := of_bool (bit v j)])"
    using j assms by (subst toBinary_loop.simps) (simp add: bit_at_value)
  have "toBinary_loop v N (Suc j) (out[j := of_bool (bit v j)])
        = Inr (take (Suc j) (out[j := of_bool (bit v j)]) @ map (\<lambda>k. of_bool (bit v k)) [Suc j..<N])"
    using Suc j by (intro Suc.hyps(1)) auto
  also have "take (Suc j) (out[j := of_bool (bit v j)]) = take j out @ [of_bool (bit v j)]"
    using j Suc.prems by (simp add: take_Suc_conv_app_nth)
  finally show ?case using step j by (simp add: upt_conv_Cons)
qed

lemma toBinary_value:
  "0 \<le> v \<Longrightarrow> v < 2 ^ 31 \<Longrightarrow> N \<le> 32 \<Longrightarrow> toBinary v N = Inr (bin_of v N)"
  by (simp add: toBinary_def toBinary_loop_value bin_of_def)

lemma shl_bit_value:
  assumes "0 \<le> (v::int)" "v < 2 ^ 31" "j < 32"
  shows "shl (of_bool (bit v j)) j = Inr (2 ^ j * of_bool (bit v j))"
proof (cases "bit v j")
  case False
  then show ?thesis using assms by (simp add: shl_def)
next
  case True
  have "j < 31"
  proof (rule ccontr)
    assume "\<not> j < 31"
    then have "(2::int) ^ 31 \<le> 2 ^ j" by (intro power_increasing) simp_all
    then have "v < 2 ^ j" using assms(2) by linarith
    then have "take_bit j v = v" using assms(1) by (simp add: take_bit_int_eq_self)
    then show False using True
      by (metis bit_take_bit_iff less_irrefl)
  qed
  then have "(2::int) ^ j < 2 ^ 31"
    by (intro power_strict_increasing) simp_all
  moreover have "- (2 ^ 31) \<le> (2::int) ^ j"
    by (rule order_trans [of _ 0]) simp_all
  ultimately have "signed_take_bit 31 (2 ^ j :: int) = 2 ^ j"
    by (simp add: signed_take_bit_int_eq_self_iff)
  then show ?thesis using True assms by (simp add: shl_def)
qed

lemma fromBinary_loop_value:
  assumes "0 \<le> v" "v < 2 ^ 31" "N \<le> 32"
  shows "j \<le> N \<Longrightarrow> fromBinary_loop (bin_of v N) N j (take_bit j v) = Inr (take_bit N v)"
proof (induction "N - j" arbitrary: j)
  case 0
  then show ?case by (simp add: fromBinary_loop.simps)
next
  case (Suc d)
  then have j: "j < N" by simp
  have nth: "bin_of v N ! j = of_bool (bit v j)" using j by (simp add: bin_of_def)
  have tb: "take_bit j v + 2 ^ j * of_bool (bit v j) = take_bit (Suc j) v"
    by (simp add: take_bit_Suc_from_most)
  have lo: "0 \<le> take_bit (Suc j) v" by simp
  have up: "take_bit (Suc j) v \<le> v" using assms(1) by (simp add: take_bit_int_less_eq_self_iff)
  have "- (2 ^ 31) \<le> take_bit (Suc j) v \<and> take_bit (Suc j) v < 2 ^ 31"
    using lo up assms(2) by linarith
  then have add: "add_int (take_bit j v) (2 ^ j * of_bool (bit v j)) = Inr (take_bit (Suc j) v)"
    unfolding add_int_def tb by simp
  have "fromBinary_loop (bin_of v N) N j (take_bit j v)
        = fromBinary_loop (bin_of v N) N (Suc j) (take_bit (Suc j) v)"
    using j assms nth add
    by (subst fromBinary_loop.simps) (simp add: shl_bit_value bin_of_def)
  also have "\<dots> = Inr (take_bit N v)"
    using Suc j by (intro Suc.hyps(1)) auto
  finally show ?case .
qed

lemma fromBinary_value:
  "0 \<le> v \<Longrightarrow> v < 2 ^ 31 \<Longrightarrow> N \<le> 32 \<Longrightarrow> fromBinary (bin_of v N) N = Inr (take_bit N v)"
  using fromBinary_loop_value [of v N 0] by (simp add: fromBinary_def)

text \<open>
  C9. The claim is that \<open>fromBinary (toBinary v w) w = v\<close> for every width \<open>w\<close> and every
  \<open>0 \<le> v < 2 ^ w\<close>. At width 33 the loop of \<open>toBinary\<close> reaches \<open>1 << 32\<close> on a 32-bit
  \<^verbatim>\<open>int\<close>: no bit vector is returned.
\<close>

theorem toBinary_roundtrip_counterexample:
  "(0::int) \<le> 1 \<and> (1::int) < 2 ^ 33 \<and> toBinary 1 33 = Inl Undefined_Shift"
  by code_simp

text \<open>
  C9, amended. For every width \<open>w \<le> 32\<close> and every \<^verbatim>\<open>int\<close> \<open>v\<close> with \<open>0 \<le> v < 2 ^ w\<close>,
  \<open>toBinary v w\<close> is the list of the \<open>w\<close> low binary digits of \<open>v\<close>, least significant
  first, and \<open>fromBinary\<close> gives \<open>v\<close> back from it.
\<close>

theorem toBinary_fromBinary_roundtrip:
  assumes "w \<le> 32" "0 \<le> v" "v < 2 ^ w" "v < 2 ^ 31"
  shows "toBinary v w = Inr (map (\<lambda>k. of_bool (bit v k)) [0..<w])
         \<and> fromBinary (map (\<lambda>k. of_bool (bit v k)) [0..<w]) w = Inr v"
proof -
  have "take_bit w v = v" using assms by (simp add: take_bit_int_eq_self)
  then show ?thesis
    using toBinary_value [of v w] fromBinary_value [of v w] assms by (simp add: bin_of_def)
qed

theorem toBinary_fromBinary_roundtrip_witness:
  "(5::nat) \<le> 32 \<and> (0::int) \<le> 19 \<and> (19::int) < 2 ^ 5 \<and> (19::int) < 2 ^ 31
   \<and> toBinary 19 5 = Inr (map (\<lambda>k. of_bool (bit (19::int) k)) [0..<5])
   \<and> fromBinary (map (\<lambda>k. of_bool (bit (19::int) k)) [0..<5]) 5 = Inr 19"
  using toBinary_fromBinary_roundtrip [of 5 19] by simp

text \<open>
  C10. The claim is that \<open>fromBinary (toBinary v w) w = v mod 2 ^ w\<close> for every width
  \<open>w\<close> and every \<open>v \<ge> 0\<close>. It fails at width 40 for the same reason as C9.
\<close>

theorem toBinary_truncates_counterexample:
  "(0::int) \<le> 5 \<and> toBinary 5 40 = Inl Undefined_Shift"
  by code_simp

text \<open>
  C10, amended. For every width \<open>w \<le> 32\<close> and every \<^verbatim>\<open>int\<close> \<open>v \<ge> 0\<close>, also when
  \<open>v \<ge> 2 ^ w\<close>, \<open>toBinary v w\<close> is the list of the \<open>w\<close> low binary digits of \<open>v\<close> and
  \<open>fromBinary\<close> maps it to \<open>v mod 2 ^ w\<close>.
\<close>

theorem toBinary_truncates:
  assumes "w \<le> 32" "0 \<le> v" "v < 2 ^ 31"
  shows "toBinary v w = Inr (map (\<lambda>k. of_bool (bit v k)) [0..<w])
         \<and> fromBinary (map (\<lambda>k. of_bool (bit v k)) [0..<w]) w = Inr (v mod 2 ^ w)"
  using toBinary_value [of v w] fromBinary_value [of v w] assms
  by (simp add: bin_of_def take_bit_eq_mod)

theorem toBinary_truncates_witness:
  "(3::nat) \<le> 32 \<and> (0::int) \<le> 13 \<and> (13::int) < 2 ^ 31
   \<and> toBinary 13 3 = Inr (map (\<lambda>k. of_bool (bit (13::int) k)) [0..<3])
   \<and> fromBinary (map (\<lambda>k. of_bool (bit (13::int) k)) [0..<3]) 3 = Inr (13 mod 2 ^ 3)"
  using toBinary_truncates [of 3 13] by simp

section \<open>Correctness of the period computation\<close>

lemma lcp_le_left: "lcp xs ys \<le> length xs"
  by (induction xs ys rule: lcp.induct) auto

lemma lcp_le_right: "lcp xs ys \<le> length ys"
  by (induction xs ys rule: lcp.induct) auto

lemma lcp_nth: "t < lcp xs ys \<Longrightarrow> xs ! t = ys ! t"
proof (induction xs ys arbitrary: t rule: lcp.induct)
  case (1 x xs y ys)
  then show ?case by (cases t) (auto split: if_splits)
qed auto

lemma lcp_stop:
  "lcp xs ys < length xs \<Longrightarrow> lcp xs ys < length ys \<Longrightarrow> xs ! lcp xs ys \<noteq> ys ! lcp xs ys"
  by (induction xs ys rule: lcp.induct) auto

lemma lcp_eqI:
  assumes "m \<le> length xs" "m \<le> length ys" "\<And>t. t < m \<Longrightarrow> xs ! t = ys ! t"
    and "m < length xs \<Longrightarrow> m < length ys \<Longrightarrow> xs ! m \<noteq> ys ! m"
  shows "lcp xs ys = m"
proof (rule ccontr)
  assume ne: "lcp xs ys \<noteq> m"
  show False
  proof (cases "lcp xs ys < m")
    case True
    then have "lcp xs ys < length xs" "lcp xs ys < length ys" using assms(1,2) by auto
    then have "xs ! lcp xs ys \<noteq> ys ! lcp xs ys" by (rule lcp_stop)
    then show False using assms(3) [OF True] by simp
  next
    case False
    then have lt: "m < lcp xs ys" using ne by simp
    then have "m < length xs" "m < length ys"
      using lcp_le_left [of xs ys] lcp_le_right [of xs ys] by auto
    then have "xs ! m \<noteq> ys ! m" by (rule assms(4))
    then show False using lcp_nth [OF lt] by simp
  qed
qed

lemma Zarr_le: "i \<le> length s \<Longrightarrow> i + Zarr s i \<le> length s"
  using lcp_le_right [of s "drop i s"] by (simp add: Zarr_def)

lemma Zarr_nth: "t < Zarr s i \<Longrightarrow> s ! t = s ! (i + t)"
proof -
  assume t: "t < Zarr s i"
  then have "t < length (drop i s)" using lcp_le_right [of s "drop i s"] by (simp add: Zarr_def)
  then show ?thesis using lcp_nth [of t s "drop i s"] t by (simp add: Zarr_def)
qed

lemma Zarr_stop:
  assumes "i + Zarr s i < length s"
  shows "s ! Zarr s i \<noteq> s ! (i + Zarr s i)"
proof -
  have "lcp s (drop i s) < length s" "lcp s (drop i s) < length (drop i s)"
    using assms by (auto simp: Zarr_def)
  then have "s ! lcp s (drop i s) \<noteq> drop i s ! lcp s (drop i s)" by (rule lcp_stop)
  then show ?thesis using assms by (simp add: Zarr_def)
qed

lemma Zarr_eqI:
  assumes "i + m \<le> length s" "\<And>t. t < m \<Longrightarrow> s ! t = s ! (i + t)"
    and "i + m < length s \<Longrightarrow> s ! m \<noteq> s ! (i + m)"
  shows "Zarr s i = m"
  unfolding Zarr_def
proof (rule lcp_eqI)
  show "m \<le> length s" "m \<le> length (drop i s)" using assms(1) by auto
  show "s ! t = drop i s ! t" if "t < m" for t using assms(1,2) that by simp
  show "s ! m \<noteq> drop i s ! m" if "m < length (drop i s)" using assms(1,3) that by simp
qed

lemma Zarr_length: "Zarr s (length s) = 0"
  by (simp add: Zarr_def)

lemma extend_ge: "R \<le> extend s L R"
proof (induction s L R rule: extend.induct)
  case (1 s L R)
  then show ?case by (subst extend.simps) auto
qed

lemma extend_le: "R \<le> length s \<Longrightarrow> extend s L R \<le> length s"
proof (induction s L R rule: extend.induct)
  case (1 s L R)
  then show ?case by (subst extend.simps) auto
qed

lemma extend_match: "R \<le> t \<Longrightarrow> t < extend s L R \<Longrightarrow> s ! (t - L) = s ! t"
proof (induction s L R rule: extend.induct)
  case (1 s L R)
  show ?case
  proof (cases "R < length s \<and> s ! (R - L) = s ! R")
    case True
    then have e: "extend s L R = extend s L (Suc R)" by (subst extend.simps) simp
    show ?thesis
    proof (cases "t = R")
      case True
      then show ?thesis using \<open>R < length s \<and> s ! (R - L) = s ! R\<close> by simp
    next
      case False
      then show ?thesis using "1.IH" [OF True] "1.prems" e by simp
    qed
  next
    case False
    then have "extend s L R = R" by (subst extend.simps) auto
    then show ?thesis using "1.prems" by simp
  qed
qed

lemma extend_stop: "extend s L R < length s \<Longrightarrow> s ! (extend s L R - L) \<noteq> s ! extend s L R"
proof (induction s L R rule: extend.induct)
  case (1 s L R)
  show ?case
  proof (cases "R < length s \<and> s ! (R - L) = s ! R")
    case True
    then have e: "extend s L R = extend s L (Suc R)" by (subst extend.simps) simp
    then show ?thesis using "1.IH" [OF True] "1.prems" by simp
  next
    case False
    then have "extend s L R = R" by (subst extend.simps) auto
    then show ?thesis using "1.prems" False by simp
  qed
qed


lemma Zarr_from_extend:
  assumes "i \<le> R" "R \<le> length s" "\<And>t. i + t < R \<Longrightarrow> s ! t = s ! (i + t)"
  shows "Zarr s i = extend s i R - i"
proof (rule Zarr_eqI)
  have ge: "R \<le> extend s i R" by (rule extend_ge)
  show "i + (extend s i R - i) \<le> length s"
    using extend_le [OF assms(2), of i] ge assms(1) by simp
  show "s ! t = s ! (i + t)" if "t < extend s i R - i" for t
  proof (cases "i + t < R")
    case True
    then show ?thesis by (rule assms(3))
  next
    case False
    then have "s ! (i + t - i) = s ! (i + t)" using that extend_match [of R "i + t" s i] by simp
    then show ?thesis by simp
  qed
  show "s ! (extend s i R - i) \<noteq> s ! (i + (extend s i R - i))"
    if "i + (extend s i R - i) < length s"
    using that extend_stop [of s i R] ge assms(1) by simp
qed

lemma Zarr_box:
  assumes "Zarr s i = v" "i \<le> t" "t < i + v"
  shows "s ! (t - i) = s ! t"
  using Zarr_nth [of "t - i" s i] assms by simp

lemma Zarr_copy:
  assumes L: "1 \<le> L" "L < i" and R: "i \<le> R" "R < length s"
    and box: "\<And>t. L \<le> t \<Longrightarrow> t \<le> R \<Longrightarrow> s ! (t - L) = s ! t"
    and small: "Zarr s (i - L) < R - i + 1"
  shows "Zarr s i = Zarr s (i - L)"
proof (rule Zarr_eqI)
  let ?m = "Zarr s (i - L)"
  show "i + ?m \<le> length s" using small R by simp
  show "s ! t = s ! (i + t)" if "t < ?m" for t
  proof -
    have "s ! t = s ! (i - L + t)" using that by (rule Zarr_nth)
    moreover have "s ! (i + t - L) = s ! (i + t)" using that small L R by (intro box) auto
    moreover have "i + t - L = i - L + t" using L by simp
    ultimately show ?thesis by simp
  qed
  show "s ! ?m \<noteq> s ! (i + ?m)" if "i + ?m < length s"
  proof -
    have "i - L + ?m < length s" using that by simp
    then have "s ! ?m \<noteq> s ! (i - L + ?m)" by (rule Zarr_stop)
    moreover have "s ! (i + ?m - L) = s ! (i + ?m)" using small L R by (intro box) auto
    moreover have "i + ?m - L = i - L + ?m" using L by simp
    ultimately show ?thesis by simp
  qed
qed

lemma ComputeZ_loop_correct:
  assumes "length z = length s" "1 \<le> i" "i \<le> length s" "L < i" "R < length s"
    and "\<And>j. 1 \<le> j \<Longrightarrow> j < i \<Longrightarrow> z ! (j - 1) = Zarr s j"
    and "\<And>j. i \<le> j \<Longrightarrow> j \<le> length s \<Longrightarrow> z ! (j - 1) = 0"
    and "i \<le> R \<Longrightarrow> 1 \<le> L \<and> (\<forall>t. L \<le> t \<and> t \<le> R \<longrightarrow> s ! (t - L) = s ! t)"
  shows "\<exists>z'. ComputeZ_loop s i L R z = Inr z' \<and> length z' = length s
           \<and> (\<forall>j. 1 \<le> j \<and> j \<le> length s \<longrightarrow> z' ! (j - 1) = Zarr s j)"
  using assms
proof (induction "length s - i" arbitrary: i L R z)
  case 0
  then have i: "i = length s" by simp
  have "z ! (j - 1) = Zarr s j" if "1 \<le> j" "j \<le> length s" for j
  proof (cases "j < i")
    case True
    then show ?thesis using "0.prems"(6) that by simp
  next
    case False
    then have "j = length s" using that i by simp
    then show ?thesis using "0.prems"(7) [of j] i by (simp add: Zarr_length)
  qed
  then show ?case using i "0.prems"(1) by (subst ComputeZ_loop.simps) simp
next
  case (Suc d)
  note len = Suc.prems(1) and i1 = Suc.prems(2) and L = Suc.prems(4) and R = Suc.prems(5)
    and filled = Suc.prems(6) and rest = Suc.prems(7) and box = Suc.prems(8)
  have i: "i < length s" using Suc.hyps(2) by simp
  txt \<open>What the rest of the loop returns once \<open>z[i-1]\<close> holds the right value.\<close>
  have next_step: "\<exists>z'. ComputeZ_loop s (Suc i) L' R' (z[i - 1 := v]) = Inr z' \<and> length z' = length s
           \<and> (\<forall>j. 1 \<le> j \<and> j \<le> length s \<longrightarrow> z' ! (j - 1) = Zarr s j)"
    if v: "v = Zarr s i" and L': "L' < Suc i" and R': "R' < length s"
      and box': "Suc i \<le> R' \<Longrightarrow> 1 \<le> L' \<and> (\<forall>t. L' \<le> t \<and> t \<le> R' \<longrightarrow> s ! (t - L') = s ! t)"
    for L' R' v
  proof (rule Suc.hyps(1))
    show "d = length s - Suc i" using Suc.hyps(2) by simp
    show "length (z[i - 1 := v]) = length s" using len by simp
    show "1 \<le> Suc i" by simp
    show "Suc i \<le> length s" using i by simp
    show "L' < Suc i" by (rule L')
    show "R' < length s" by (rule R')
    show "z[i - 1 := v] ! (j - 1) = Zarr s j" if "1 \<le> j" "j < Suc i" for j
    proof (cases "j = i")
      case True
      then show ?thesis using v len i i1 by simp
    next
      case False
      then have "j < i" "j - 1 \<noteq> i - 1" using that i1 by auto
      then show ?thesis using filled [of j] that by simp
    qed
    show "z[i - 1 := v] ! (j - 1) = 0" if "Suc i \<le> j" "j \<le> length s" for j
    proof -
      have "j - 1 \<noteq> i - 1" using that i1 by auto
      then show ?thesis using rest [of j] that by simp
    qed
    show "1 \<le> L' \<and> (\<forall>t. L' \<le> t \<and> t \<le> R' \<longrightarrow> s ! (t - L') = s ! t)" if "Suc i \<le> R'"
      using that by (rule box')
  qed
  txt \<open>The two branches that extend the match from \<open>R0\<close>.\<close>
  have extend_step: "\<exists>z'. ComputeZ_loop s (Suc i) i (extend s i R0 - 1) (z[i - 1 := extend s i R0 - i]) = Inr z'
           \<and> length z' = length s
           \<and> (\<forall>j. 1 \<le> j \<and> j \<le> length s \<longrightarrow> z' ! (j - 1) = Zarr s j)"
    if R0: "i \<le> R0" "R0 \<le> length s" and known: "\<And>t. i + t < R0 \<Longrightarrow> s ! t = s ! (i + t)" for R0
  proof (rule next_step)
    have ge: "R0 \<le> extend s i R0" by (rule extend_ge)
    have le: "extend s i R0 \<le> length s" using R0(2) by (rule extend_le)
    show Z: "extend s i R0 - i = Zarr s i" using Zarr_from_extend [OF R0 known] by simp
    show "i < Suc i" by simp
    show "extend s i R0 - 1 < length s" using ge le R0(1) i1 by simp
    show "1 \<le> i \<and> (\<forall>t. i \<le> t \<and> t \<le> extend s i R0 - 1 \<longrightarrow> s ! (t - i) = s ! t)"
      if "Suc i \<le> extend s i R0 - 1"
    proof -
      have "s ! (t - i) = s ! t" if "i \<le> t" "t \<le> extend s i R0 - 1" for t
        using that \<open>Suc i \<le> extend s i R0 - 1\<close> by (intro Zarr_box [OF Z [symmetric]]) auto
      then show ?thesis using i1 by simp
    qed
  qed
  show ?case
  proof (cases "R < i")
    case True
    have "ComputeZ_loop s i L R z
          = ComputeZ_loop s (Suc i) i (extend s i i - 1) (z[i - 1 := extend s i i - i])"
      using i True by (subst ComputeZ_loop.simps) (simp add: Let_def)
    then show ?thesis using extend_step [of i] i by simp
  next
    case False
    then have iR: "i \<le> R" by simp
    then have L1: "1 \<le> L" and match: "\<And>t. L \<le> t \<Longrightarrow> t \<le> R \<Longrightarrow> s ! (t - L) = s ! t"
      using box by auto
    have zk: "z ! (i - L - 1) = Zarr s (i - L)" using L L1 by (intro filled) auto
    have chk: "\<not> (i \<le> L \<or> length z < i - L)" using L len i by simp
    show ?thesis
    proof (cases "Zarr s (i - L) < R - i + 1")
      case True
      have "ComputeZ_loop s i L R z = ComputeZ_loop s (Suc i) L R (z[i - 1 := Zarr s (i - L)])"
        using i iR chk True zk by (subst ComputeZ_loop.simps) (simp add: Let_def)
      moreover have "Zarr s (i - L) = Zarr s i"
        using Zarr_copy [OF L1 L iR R match True] by simp
      moreover have "1 \<le> L \<and> (\<forall>t. L \<le> t \<and> t \<le> R \<longrightarrow> s ! (t - L) = s ! t)"
        using L1 match by simp
      ultimately show ?thesis using next_step [of "Zarr s (i - L)" L R] L R by simp
    next
      case False
      have "ComputeZ_loop s i L R z
            = ComputeZ_loop s (Suc i) i (extend s i R - 1) (z[i - 1 := extend s i R - i])"
        using i iR chk False zk by (subst ComputeZ_loop.simps) (simp add: Let_def)
      moreover have "s ! t = s ! (i + t)" if "i + t < R" for t
      proof -
        have "t < Zarr s (i - L)" using False that by simp
        then have "s ! t = s ! (i - L + t)" by (rule Zarr_nth)
        moreover have "s ! (i + t - L) = s ! (i + t)" using that L by (intro match) auto
        moreover have "i + t - L = i - L + t" using L by simp
        ultimately show ?thesis by simp
      qed
      ultimately show ?thesis using extend_step [of R] iR R by simp
    qed
  qed
qed

lemma ComputeZ_correct:
  "ComputeZ s = Inr (map (Zarr s) [1..<Suc (length s)])"
proof (cases "s = []")
  case True
  then show ?thesis by (simp add: ComputeZ_def ComputeZ_loop.simps)
next
  case False
  then have "\<exists>z'. ComputeZ_loop s 1 0 0 (replicate (length s) 0) = Inr z' \<and> length z' = length s
           \<and> (\<forall>j. 1 \<le> j \<and> j \<le> length s \<longrightarrow> z' ! (j - 1) = Zarr s j)"
    by (intro ComputeZ_loop_correct) (auto simp: Suc_le_eq)
  then obtain z' where z': "ComputeZ s = Inr z'" "length z' = length s"
    "\<And>j. 1 \<le> j \<Longrightarrow> j \<le> length s \<Longrightarrow> z' ! (j - 1) = Zarr s j"
    unfolding ComputeZ_def by auto
  have "z' = map (Zarr s) [1..<Suc (length s)]"
  proof (rule nth_equalityI)
    show "length z' = length (map (Zarr s) [1..<Suc (length s)])" using z'(2) by (simp del: upt_Suc)
    show "z' ! k = map (Zarr s) [1..<Suc (length s)] ! k" if "k < length z'" for k
      using z'(3) [of "Suc k"] that z'(2) by (simp del: upt_Suc)
  qed
  then show ?thesis using z'(1) by simp
qed


lemma ComputePeriods_loop_filter:
  "i \<le> Suc n \<Longrightarrow>
   ComputePeriods_loop n z i ps = ps @ filter (\<lambda>q. q + z ! (q - 1) = n) [i..<Suc n]"
proof (induction "Suc n - i" arbitrary: i ps)
  case 0
  then show ?case by (subst ComputePeriods_loop.simps) simp
next
  case (Suc d)
  then have i: "i \<le> n" by simp
  have "ComputePeriods_loop n z i ps
        = ComputePeriods_loop n z (Suc i) (if i + z ! (i - 1) = n then ps @ [i] else ps)"
    using i by (subst ComputePeriods_loop.simps) simp
  also have "\<dots> = (if i + z ! (i - 1) = n then ps @ [i] else ps)
                   @ filter (\<lambda>q. q + z ! (q - 1) = n) [Suc i..<Suc n]"
    using Suc i by (intro Suc.hyps(1)) auto
  also have "\<dots> = ps @ filter (\<lambda>q. q + z ! (q - 1) = n) [i..<Suc n]"
    using i by (simp add: upt_conv_Cons [of i "Suc n"] del: upt_Suc)
  finally show ?case .
qed

lemma ComputePeriods_Z:
  "ComputePeriods s = Inr (filter (\<lambda>q. q + Zarr s q = length s) [1..<Suc (length s)])"
proof -
  have "filter (\<lambda>q. q + map (Zarr s) [1..<Suc (length s)] ! (q - 1) = length s) [1..<Suc (length s)]
        = filter (\<lambda>q. q + Zarr s q = length s) [1..<Suc (length s)]"
  proof (rule filter_cong [OF refl])
    fix q assume "q \<in> set [1..<Suc (length s)]"
    then have "1 \<le> q" "q - 1 < length s" by auto
    then have "map (Zarr s) [1..<Suc (length s)] ! (q - 1) = Zarr s q"
      by (simp del: upt_Suc)
    then show "(q + map (Zarr s) [1..<Suc (length s)] ! (q - 1) = length s)
               = (q + Zarr s q = length s)" by simp
  qed
  then show ?thesis
    by (simp add: ComputePeriods_def ComputeZ_correct ComputePeriods_loop_filter del: upt_Suc)
qed

lemma is_period_nth: "is_period s q \<Longrightarrow> t + q < length s \<Longrightarrow> s ! t = s ! (t + q)"
  by (auto simp: is_period_def list_all_iff)

lemma is_periodI:
  "1 \<le> q \<Longrightarrow> q \<le> length s \<Longrightarrow> (\<And>t. t + q < length s \<Longrightarrow> s ! t = s ! (t + q)) \<Longrightarrow> is_period s q"
  by (auto simp: is_period_def list_all_iff)

lemma period_iff_Z:
  assumes "1 \<le> q" "q \<le> length s"
  shows "q + Zarr s q = length s \<longleftrightarrow> is_period s q"
proof
  assume eq: "q + Zarr s q = length s"
  show "is_period s q"
  proof (rule is_periodI [OF assms])
    fix t assume "t + q < length s"
    then have "t < Zarr s q" using eq by simp
    then show "s ! t = s ! (t + q)" using Zarr_nth [of t s q] by (simp add: add.commute)
  qed
next
  assume per: "is_period s q"
  have "Zarr s q = length s - q"
  proof (rule Zarr_eqI)
    show "q + (length s - q) \<le> length s" using assms by simp
    show "s ! t = s ! (q + t)" if "t < length s - q" for t
      using is_period_nth [OF per, of t] that by (simp add: add.commute)
    show "s ! (length s - q) \<noteq> s ! (q + (length s - q))" if "q + (length s - q) < length s"
      using that assms by simp
  qed
  then show "q + Zarr s q = length s" using assms by simp
qed

lemma ComputePeriods_periods:
  "ComputePeriods s = Inr (filter (is_period s) [1..<Suc (length s)])"
proof -
  have "filter (\<lambda>q. q + Zarr s q = length s) [1..<Suc (length s)]
        = filter (is_period s) [1..<Suc (length s)]"
    by (rule filter_cong [OF refl]) (simp add: period_iff_Z del: upt_Suc)
  then show ?thesis by (simp add: ComputePeriods_Z del: upt_Suc)
qed

lemma is_period_length: "s \<noteq> [] \<Longrightarrow> is_period s (length s)"
  by (rule is_periodI) (auto simp: Suc_le_eq)

lemma min_element_Min:
  "min_element ps = (if ps = [] then None else Some (Min (set ps)))"
proof (induction ps)
  case Nil
  then show ?case by simp
next
  case (Cons x ps)
  show ?case
  proof (cases "ps = []")
    case True
    then show ?thesis by simp
  next
    case False
    then have m: "min_element ps = Some (Min (set ps))" using Cons by simp
    have "min_element (x # ps) = Some (if Min (set ps) < x then Min (set ps) else x)"
      using m by simp
    also have "(if Min (set ps) < x then Min (set ps) else x) = min x (Min (set ps))"
      by (auto simp: min_def)
    also have "min x (Min (set ps)) = Min (set (x # ps))" using False by simp
    finally have e: "min_element (x # ps) = Some (Min (set (x # ps)))" .
    show ?thesis unfolding e by simp
  qed
qed

lemma ComputeMinPeriod_Nil: "ComputeMinPeriod [] = Inl Empty_Dereference"
  by (simp add: ComputeMinPeriod_def ComputePeriods_periods)

lemma ComputeMinPeriod_least:
  assumes "s \<noteq> []"
  shows "\<exists>m. ComputeMinPeriod s = Inr m \<and> is_period s m \<and> (\<forall>q. is_period s q \<longrightarrow> m \<le> q)"
proof -
  define ps where "ps = filter (is_period s) [1..<Suc (length s)]"
  have mem: "q \<in> set ps \<longleftrightarrow> is_period s q" for q
    unfolding ps_def by (auto simp: is_period_def simp del: upt_Suc)
  have ne: "ps \<noteq> []" using mem [of "length s"] is_period_length [OF assms] by force
  have "ComputePeriods s = Inr ps" unfolding ps_def by (rule ComputePeriods_periods)
  then have "ComputeMinPeriod s = Inr (Min (set ps))"
    using ne by (simp add: ComputeMinPeriod_def min_element_Min)
  moreover have "Min (set ps) \<in> set ps" using ne by (intro Min_in) auto
  moreover have "Min (set ps) \<le> q" if "is_period s q" for q
    using that mem [of q] by (intro Min_le) auto
  ultimately show ?thesis using mem by blast
qed

text \<open>
  C7. The claim includes that the list returned by \<open>ComputePeriods\<close> is never empty, for
  every sequence. For the empty sequence the loop does not run and the list is empty.
\<close>

theorem ComputePeriods_nonempty_counterexample:
  "ComputePeriods [] = Inr []"
  by (simp add: ComputePeriods_Z)

text \<open>
  C7, amended. For every sequence \<open>s\<close>, \<open>ComputePeriods s\<close> returns the strictly ascending
  list of exactly those \<open>q\<close> from 1 to \<open>length s\<close> with \<open>q + Z[q] = length s\<close>, where \<open>Z\<close> is
  the Z-array of \<open>s\<close> and \<open>Z[length s] = 0\<close>; when \<open>s\<close> is not empty, the list is not empty
  and its last element is \<open>length s\<close>.
\<close>

theorem ComputePeriods_spec:
  "\<exists>ps. ComputePeriods s = Inr ps
     \<and> ps = filter (\<lambda>q. q + Zarr s q = length s) [1..<Suc (length s)]
     \<and> sorted_wrt (<) ps
     \<and> Zarr s (length s) = 0
     \<and> (s \<noteq> [] \<longrightarrow> ps \<noteq> [] \<and> last ps = length s)"
proof -
  define ps where "ps = filter (\<lambda>q. q + Zarr s q = length s) [1..<Suc (length s)]"
  have "ComputePeriods s = Inr ps" unfolding ps_def by (rule ComputePeriods_Z)
  moreover have "sorted_wrt (<) ps" unfolding ps_def by (intro sorted_wrt_filter) (simp del: upt_Suc)
  moreover have "ps \<noteq> [] \<and> last ps = length s" if "s \<noteq> []"
  proof -
    have "[1..<Suc (length s)] = [1..<length s] @ [length s]" using that by (simp add: Suc_le_eq)
    then have "ps = filter (\<lambda>q. q + Zarr s q = length s) [1..<length s] @ [length s]"
      unfolding ps_def by (simp add: Zarr_length)
    then show ?thesis by simp
  qed
  ultimately show ?thesis using ps_def by (simp add: Zarr_length)
qed

theorem ComputePeriods_spec_witness:
  "[1, 0, 1, 0, 1, 0] \<noteq> ([] :: vi)
   \<and> (\<exists>ps. ComputePeriods [1, 0, 1, 0, 1, 0] = Inr ps \<and> ps \<noteq> [] \<and> last ps = 6)"
  using ComputePeriods_spec [of "[1, 0, 1, 0, 1, 0]"] by auto

text \<open>
  C8. \<open>ComputeMinPeriod\<close> returns the minimum of the list of periods for every non-empty
  sequence, and fails on the empty one, where it dereferences the end of an empty range.
\<close>

theorem ComputeMinPeriod_defined:
  "(s \<noteq> [] \<longrightarrow>
      (\<exists>ps. ComputePeriods s = Inr ps \<and> ps \<noteq> [] \<and> ComputeMinPeriod s = Inr (Min (set ps))))
   \<and> ComputeMinPeriod [] = Inl Empty_Dereference"
proof -
  have "\<exists>ps. ComputePeriods s = Inr ps \<and> ps \<noteq> [] \<and> ComputeMinPeriod s = Inr (Min (set ps))"
    if "s \<noteq> []"
  proof -
    define ps where "ps = filter (is_period s) [1..<Suc (length s)]"
    have ps: "ComputePeriods s = Inr ps" unfolding ps_def by (rule ComputePeriods_periods)
    have "length s \<in> set ps" unfolding ps_def using is_period_length [OF that] that
      by (simp add: Suc_le_eq del: upt_Suc)
    then have "ps \<noteq> []" by auto
    then show ?thesis using ps by (simp add: ComputeMinPeriod_def min_element_Min)
  qed
  then show ?thesis using ComputeMinPeriod_Nil by simp
qed

theorem ComputeMinPeriod_defined_witness:
  "[1, 0, 1, 0, 1, 0] \<noteq> ([] :: vi)
   \<and> (\<exists>ps. ComputePeriods [1, 0, 1, 0, 1, 0] = Inr ps \<and> ps \<noteq> []
          \<and> ComputeMinPeriod [1, 0, 1, 0, 1, 0] = Inr (Min (set ps)))"
  using ComputeMinPeriod_defined [of "[1, 0, 1, 0, 1, 0]"] by simp

section \<open>The correction step and its inverse\<close>

lemma ceil_log2_bound: "n \<le> 2 ^ ceil_log2 n"
proof (induction n rule: ceil_log2.induct)
  case (1 n)
  show ?case
  proof (cases "n \<le> 1")
    case True
    then show ?thesis by (subst ceil_log2.simps) simp
  next
    case False
    then have "(n + 1) div 2 \<le> 2 ^ ceil_log2 ((n + 1) div 2)" by (rule "1.IH")
    then have "n \<le> 2 * 2 ^ ceil_log2 ((n + 1) div 2)" by linarith
    then show ?thesis using False by (subst ceil_log2.simps) simp
  qed
qed

lemma ceil_log2_le: "n \<le> 2 ^ k \<Longrightarrow> ceil_log2 n \<le> k"
proof (induction n arbitrary: k rule: ceil_log2.induct)
  case (1 n)
  show ?case
  proof (cases "n \<le> 1")
    case True
    then show ?thesis by (subst ceil_log2.simps) simp
  next
    case False
    then obtain k' where k: "k = Suc k'" using "1.prems" by (cases k) auto
    then have "(n + 1) div 2 \<le> 2 ^ k'" using "1.prems" by simp
    then have "ceil_log2 ((n + 1) div 2) \<le> k'" using False by (intro "1.IH") auto
    then show ?thesis using False k by (subst ceil_log2.simps) simp
  qed
qed

lemma zero_fill_value:
  "j \<le> hi \<Longrightarrow> hi \<le> length out \<Longrightarrow>
   zero_fill out j hi = Inr (take j out @ replicate (hi - j) 0 @ drop hi out)"
proof (induction "hi - j" arbitrary: j out)
  case 0
  then show ?case by (subst zero_fill.simps) simp
next
  case (Suc d)
  then have j: "j < hi" by simp
  have "zero_fill out j hi = zero_fill (out[j := 0]) (Suc j) hi"
    using j Suc.prems by (subst zero_fill.simps) simp
  also have "\<dots> = Inr (take (Suc j) (out[j := 0]) @ replicate (hi - Suc j) 0 @ drop hi (out[j := 0]))"
    using Suc j by (intro Suc.hyps(1)) auto
  also have "take (Suc j) (out[j := 0]) = take j out @ [0]"
    using j Suc.prems by (simp add: take_Suc_conv_app_nth)
  also have "drop hi (out[j := 0]) = drop hi out" using j by simp
  also have "(take j out @ [0]) @ replicate (hi - Suc j) 0 @ drop hi out
             = take j out @ replicate (hi - j) 0 @ drop hi out"
    using j by (simp add: replicate_Suc [symmetric] Suc_diff_Suc del: replicate_Suc)
  finally show ?case .
qed

lemma valid_params_log: "valid_params n l p \<Longrightarrow> ceil_log2 n \<le> 32"
  using ceil_log2_le [of n 31] by (simp add: valid_params_def)


lemma length_bin_of: "length (bin_of v N) = N"
  by (simp add: bin_of_def)

lemma bits_bin_of: "bits (bin_of v N)"
  by (simp add: bits_def bin_of_def list_all_iff)

lemma bits_append: "bits (xs @ ys) \<longleftrightarrow> bits xs \<and> bits ys"
  by (simp add: bits_def)

lemma bits_take: "bits xs \<Longrightarrow> bits (take k xs)"
  by (auto simp: bits_def list_all_iff dest: in_set_takeD)

lemma bits_drop: "bits xs \<Longrightarrow> bits (drop k xs)"
  by (auto simp: bits_def list_all_iff dest: in_set_dropD)

lemma bits_replicate0: "bits (replicate k 0)"
  by (simp add: bits_def list_all_iff)

lemma bits_Nil: "bits []"
  by (simp add: bits_def)

lemma bits_Cons: "bits (a # xs) \<longleftrightarrow> (a = 0 \<or> a = 1) \<and> bits xs"
  by (simp add: bits_def)

text \<open>The sequence a correction produces, written out.\<close>

lemma correct_window_value:
  assumes v: "valid_params n l p" and len: "length s = n + 1" and i: "i + l \<le> n + 1"
    and q: "q < p"
  shows "correct_window n l p (ceil_log2 n) s i q
         = Inr (take (i + q) s @ [1] @ replicate (p - q - 1) 0 @ drop (i + l) s
                @ bin_of (int i) (ceil_log2 n) @ [0])"
proof -
  define lg where "lg = ceil_log2 n"
  have l: "l = p + lg + 1" and n: "n < 2 ^ 31" using v by (simp_all add: valid_params_def lg_def)
  define out1 where "out1 = take (i + p) s @ drop (i + l) s"
  have len1: "length out1 = n + 1 - (lg + 1)" using len i l by (simp add: out1_def)
  have ip: "i + p \<le> length out1" using len i l by (simp add: out1_def)
  have iq: "i + q < length out1" using ip q by simp
  have t1: "take (Suc (i + q)) (out1[i + q := 1]) = take (i + q) s @ [1]"
    using iq q len i l by (simp add: take_Suc_conv_app_nth out1_def)
  have d1: "drop (i + p) (out1[i + q := 1]) = drop (i + l) s"
    using q len i l by (simp add: out1_def)
  have "zero_fill (out1[i + q := 1]) (i + q + 1) (i + p)
        = Inr (take (i + q + 1) (out1[i + q := 1]) @ replicate (i + p - (i + q + 1)) 0
               @ drop (i + p) (out1[i + q := 1]))"
    using q ip by (intro zero_fill_value) auto
  then have zf: "zero_fill (out1[i + q := 1]) (i + q + 1) (i + p)
        = Inr (take (i + q) s @ [1] @ replicate (p - q - 1) 0 @ drop (i + l) s)"
    using t1 d1 by simp
  have "int i < 2 ^ 31" using i l n by simp
  then have tb: "toBinary (int i) lg = Inr (bin_of (int i) lg)"
    using valid_params_log [OF v] by (intro toBinary_value) (auto simp: lg_def)
  have chk: "\<not> (l < p \<or> length s < i + l)" using l len i by simp
  have final: "length (take (i + q) s @ [1] @ replicate (p - q - 1) 0 @ drop (i + l) s
                @ bin_of (int i) lg @ [0]) = n + 1"
    using q len i l by (simp add: length_bin_of)
  show ?thesis
    unfolding correct_window_def lg_def [symmetric] Let_def out1_def [symmetric]
    using chk iq zf tb final by simp
qed


lemma scan_back_value:
  "m \<le> j \<Longrightarrow> j < length xs \<Longrightarrow> xs ! m \<noteq> 0 \<Longrightarrow> (\<And>t. m < t \<Longrightarrow> t \<le> j \<Longrightarrow> xs ! t = 0)
   \<Longrightarrow> scan_back xs j = Inr m"
proof (induction j)
  case 0
  then show ?case by simp
next
  case (Suc j)
  show ?case
  proof (cases "m = Suc j")
    case True
    then show ?thesis using Suc.prems by simp
  next
    case False
    then have "xs ! Suc j = 0" using Suc.prems by simp
    moreover have "scan_back xs j = Inr m" using False Suc.prems by (intro Suc.IH) auto
    ultimately show ?thesis using Suc.prems by simp
  qed
qed

lemma unwrap_restore:
  assumes "1 \<le> q"
  shows "length xs = length s \<Longrightarrow> hi \<le> length s \<Longrightarrow> q \<le> k \<Longrightarrow>
         (\<And>t. t < k \<Longrightarrow> xs ! t = s ! t) \<Longrightarrow>
         (\<And>t. hi \<le> t \<Longrightarrow> t < length s \<Longrightarrow> xs ! t = s ! t) \<Longrightarrow>
         (\<And>t. k \<le> t \<Longrightarrow> t < hi \<Longrightarrow> s ! t = s ! (t - q)) \<Longrightarrow>
         unwrap xs k hi (int q) = Inr s"
proof (induction "hi - k" arbitrary: xs k)
  case 0
  have "xs = s"
  proof (rule nth_equalityI)
    show "length xs = length s" by (rule "0.prems"(1))
    show "xs ! t = s ! t" if "t < length xs" for t
      using that "0.hyps" "0.prems"(1) "0.prems"(4) [of t] "0.prems"(5) [of t] by (cases "t < k") auto
  qed
  then show ?case using "0.hyps" by (subst unwrap.simps) simp
next
  case (Suc d)
  then have k: "k < hi" by simp
  have src: "nat (int k - int q) = k - q" by simp
  have chk: "\<not> (length xs \<le> k \<or> int k - int q < 0 \<or> int (length xs) \<le> int k - int q)"
    using k Suc.prems(1,2,3) by auto
  have "unwrap xs k hi (int q) = unwrap (xs[k := xs ! (k - q)]) (Suc k) hi (int q)"
    using k chk src by (subst unwrap.simps) simp
  also have "\<dots> = Inr s"
  proof (rule Suc.hyps(1))
    show "d = hi - Suc k" using Suc.hyps(2) by simp
    show "length (xs[k := xs ! (k - q)]) = length s" using Suc.prems(1) by simp
    show "hi \<le> length s" by (rule Suc.prems(2))
    show "q \<le> Suc k" using Suc.prems(3) by simp
    show "xs[k := xs ! (k - q)] ! t = s ! t" if "t < Suc k" for t
    proof (cases "t = k")
      case True
      have "xs ! (k - q) = s ! (k - q)" using assms Suc.prems(3) by (intro Suc.prems(4)) auto
      also have "\<dots> = s ! k" using k Suc.prems(6) [of k] by simp
      finally show ?thesis using True k Suc.prems(1,2) by simp
    next
      case False
      then show ?thesis using that Suc.prems(4) [of t] by simp
    qed
    show "xs[k := xs ! (k - q)] ! t = s ! t" if "hi \<le> t" "t < length s" for t
      using that k Suc.prems(5) [of t] by simp
    show "s ! t = s ! (t - q)" if "Suc k \<le> t" "t < hi" for t
      using that Suc.prems(6) [of t] by simp
  qed
  finally show ?case .
qed

lemma pop_index_value:
  assumes "0 \<le> v" "v < 2 ^ 31" "v < 2 ^ N" "N \<le> 32"
  shows "pop_index N (body @ bin_of v N @ [0]) = Inr (v, body)"
proof -
  have "take_bit N v = v" using assms by (simp add: take_bit_int_eq_self)
  then have "fromBinary (bin_of v N) N = Inr v" using fromBinary_value [of v N] assms by simp
  moreover have "butlast (body @ bin_of v N @ [0]) = body @ bin_of v N"
    by (simp add: butlast_append)
  ultimately show ?thesis by (simp add: pop_index_def Let_def length_bin_of)
qed


text \<open>What the decoder reads back from a corrected sequence.\<close>

lemma decode_after_correction:
  assumes v: "valid_params n l p" and len: "length s = n + 1" and i: "i + l \<le> n + 1"
    and q: "1 \<le> q" "q < p" and per: "is_period (take l (drop i s)) q"
  defines "in2 \<equiv> take (i + q) s @ [1] @ replicate (p - q - 1) 0 @ drop (i + l) s"
  defines "s' \<equiv> in2 @ bin_of (int i) (ceil_log2 n) @ [0]"
  shows "pop_index (ceil_log2 n) s' = Inr (int i, in2)"
    and "scan_back in2 (i + p - 1) = Inr (i + q)"
    and "in2 ! (i + q) = 1"
    and "decode_step n l p (ceil_log2 n) s' = Inr s"
proof -
  define lg where "lg = ceil_log2 n"
  have l: "l = p + lg + 1" and n: "n < 2 ^ 31" using v by (simp_all add: valid_params_def lg_def)
  have "i < n" using i l q by simp
  moreover have "n \<le> 2 ^ lg" unfolding lg_def by (rule ceil_log2_bound)
  ultimately have "i < 2 ^ lg" by simp
  then have "int i < int (2 ^ lg)" by (rule iffD2 [OF of_nat_less_iff])
  then have i_lg: "int i < 2 ^ lg" by simp
  have i_31: "int i < 2 ^ 31" using \<open>i < n\<close> n by simp
  show pop: "pop_index (ceil_log2 n) s' = Inr (int i, in2)"
    unfolding s'_def lg_def [symmetric]
    using i_lg i_31 valid_params_log [OF v] by (intro pop_index_value) (auto simp: lg_def)
  have lenA: "length (take (i + q) s) = i + q" using len i l q by simp
  have len2: "length in2 = i + p + (n + 1 - (i + l))" using len i l q by (simp add: in2_def)
  show marker: "in2 ! (i + q) = 1"
    unfolding in2_def using nth_append_length [of "take (i + q) s" 1] lenA by simp
  have zeros: "in2 ! t = 0" if "i + q < t" "t \<le> i + p - 1" for t
  proof -
    have inside: "t - (i + q + 1) < p - q - 1" using that by arith
    have "in2 = (take (i + q) s @ [1]) @ replicate (p - q - 1) 0 @ drop (i + l) s"
      by (simp add: in2_def)
    moreover have "length (take (i + q) s @ [1]) = i + q + 1" using lenA by simp
    ultimately have "in2 ! t = (replicate (p - q - 1) 0 @ drop (i + l) s) ! (t - (i + q + 1))"
      using that(1) by (simp add: nth_append)
    also have "\<dots> = replicate (p - q - 1) 0 ! (t - (i + q + 1))"
      using inside by (simp add: nth_append)
    also have "\<dots> = 0" using inside by simp
    finally show ?thesis .
  qed
  show scan: "scan_back in2 (i + p - 1) = Inr (i + q)"
    using q len2 marker zeros by (intro scan_back_value) auto
  define in3 where "in3 = take (i + p) in2 @ replicate (l - p) 0 @ drop (i + p) in2"
  define pre where "pre = take (i + q) s @ [1] @ replicate (p - q - 1) 0"
  have lpre: "length pre = i + p" using lenA q by (simp add: pre_def)
  have in2': "in2 = pre @ drop (i + l) s" by (simp add: in2_def pre_def)
  have "take (i + p) in2 = pre" using lpre in2' by simp
  then have t3: "take (i + p) in2 = take (i + q) s @ [1] @ replicate (p - q - 1) 0"
    by (simp add: pre_def)
  have d3: "drop (i + p) in2 = drop (i + l) s" using lpre in2' by simp
  have in3: "in3 = take (i + q) s @ [1] @ replicate (p - q - 1) 0 @ replicate (l - p) 0 @ drop (i + l) s"
    unfolding in3_def t3 d3 by simp
  have len3: "length in3 = length s" using len i l q lenA unfolding in3 by simp
  have "unwrap in3 (i + q) (i + l) (int q) = Inr s"
  proof (rule unwrap_restore [OF q(1) len3])
    show "i + l \<le> length s" using len i by simp
    show "q \<le> i + q" by simp
    show "in3 ! t = s ! t" if "t < i + q" for t
      unfolding in3 using that lenA by (simp add: nth_append)
    show "in3 ! t = s ! t" if "i + l \<le> t" "t < length s" for t
    proof -
      have "length (take (i + q) s @ [1] @ replicate (p - q - 1) 0 @ replicate (l - p) 0) = i + l"
        using lenA q l by simp
      then have "in3 ! t = drop (i + l) s ! (t - (i + l))"
        unfolding in3 using that(1)
        by (metis append.assoc nth_append not_less)
      then show ?thesis using that len i by simp
    qed
    show "s ! t = s ! (t - q)" if "i + q \<le> t" "t < i + l" for t
    proof -
      have "take l (drop i s) ! (t - q - i) = take l (drop i s) ! (t - q - i + q)"
        using that len i by (intro is_period_nth [OF per]) auto
      then show ?thesis using that len i by simp
    qed
  qed
  then show "decode_step n l p (ceil_log2 n) s' = Inr s"
    unfolding decode_step_def pop Let_def in3_def
    using scan q l len2 len3 len unfolding in3_def
    by (simp add: nat_add_distrib nat_diff_distrib')
qed


lemma correction_result:
  assumes v: "valid_params n l p" and len: "length s = n + 1" and b: "bits s"
    and i: "i + l \<le> n + 1" and q: "1 \<le> q" "q < p"
    and per: "is_period (take l (drop i s)) q"
    and c: "correct_window n l p (ceil_log2 n) s i q = Inr s'"
  shows "length s' = n + 1" and "bits s'" and "s' ! n = 0"
    and "decode_step n l p (ceil_log2 n) s' = Inr s"
proof -
  define in2 where "in2 = take (i + q) s @ [1] @ replicate (p - q - 1) 0 @ drop (i + l) s"
  have s': "s' = in2 @ bin_of (int i) (ceil_log2 n) @ [0]"
    using correct_window_value [OF v len i q(2)] c by (simp add: in2_def)
  have l: "l = p + ceil_log2 n + 1" using v by (simp add: valid_params_def)
  show len': "length s' = n + 1"
    unfolding s' in2_def using len i l q by (simp add: length_bin_of)
  have "bits in2" unfolding in2_def using b
    by (simp add: bits_append bits_take bits_drop bits_replicate0 bits_Cons bits_Nil)
  then show "bits s'" unfolding s' by (simp add: bits_append bits_bin_of bits_Cons bits_Nil)
  have "s' \<noteq> []" using len' by auto
  then have "last s' = s' ! (length s' - 1)" by (rule last_conv_nth)
  then have "s' ! n = last s'" using len' by simp
  then show "s' ! n = 0" unfolding s' by simp
  show "decode_step n l p (ceil_log2 n) s' = Inr s"
    unfolding s' in2_def by (rule decode_after_correction(4) [OF v len i q per])
qed

lemma trace_invariant:
  assumes v: "valid_params n l p" and x: "length x = n" "bits x"
  shows "trace n l p x tr \<Longrightarrow>
         tr \<noteq> [] \<and> last tr = x @ [1] \<and> distinct tr
         \<and> (\<forall>s\<in>set tr. length s = n + 1 \<and> bits s)
         \<and> (\<forall>j. Suc j < length tr \<longrightarrow>
               tr ! j ! n = 0 \<and> decode_step n l p (ceil_log2 n) (tr ! j) = Inr (tr ! Suc j))"
proof (induction rule: trace.induct)
  case trace_start
  then show ?case using x by (simp add: bits_append bits_Cons bits_Nil)
next
  case (trace_step s tr i q s')
  let ?tr = "s # tr"
  have last: "last ?tr = x @ [1]" and dist: "distinct ?tr"
    and st: "\<And>u. u \<in> set ?tr \<Longrightarrow> length u = n + 1 \<and> bits u"
    and undo: "\<And>j. Suc j < length ?tr \<Longrightarrow>
                 ?tr ! j ! n = 0 \<and> decode_step n l p (ceil_log2 n) (?tr ! j) = Inr (?tr ! Suc j)"
    using trace_step.IH by blast+
  have s: "length s = n + 1" "bits s" using st [of s] by simp_all
  note res = correction_result [OF v s trace_step.hyps(2-6)]
  have fresh: "s' \<notin> set ?tr"
  proof
    assume "s' \<in> set ?tr"
    then obtain j where j: "j < length ?tr" "?tr ! j = s'" unfolding in_set_conv_nth by blast
    show False
    proof (cases "Suc j < length ?tr")
      case True
      then have "decode_step n l p (ceil_log2 n) s' = Inr (?tr ! Suc j)" using undo [of j] j by simp
      then have "?tr ! Suc j = ?tr ! 0" using res(4) by simp
      then have "Suc j = 0" using nth_eq_iff_index_eq [OF dist True, of 0] by simp
      then show False by simp
    next
      case False
      then have "j = length ?tr - 1" using j by simp
      moreover have "last ?tr = ?tr ! (length ?tr - 1)" by (rule last_conv_nth) simp
      ultimately have "s' = last ?tr" using j(2) by simp
      then have "s' ! n = 1" using last x by (simp add: nth_append)
      then show False using res(3) by simp
    qed
  qed
  have "(s' # ?tr) ! j ! n = 0
        \<and> decode_step n l p (ceil_log2 n) ((s' # ?tr) ! j) = Inr ((s' # ?tr) ! Suc j)"
    if "Suc j < length (s' # ?tr)" for j
  proof (cases j)
    case 0
    then show ?thesis using res by simp
  next
    case (Suc j')
    then show ?thesis using undo [of j'] that by simp
  qed
  then show ?case using last dist fresh st res(1,2) by auto
qed

lemma finite_bit_vectors: "finite {s. length s = m \<and> bits s}"
proof -
  have "{s. length s = m \<and> bits s} = {s. set s \<subseteq> {0, 1} \<and> length s = m}"
    by (auto simp: bits_def list_all_iff)
  then show ?thesis by (simp add: finite_lists_length_eq)
qed

lemma trace_length_bound:
  assumes "valid_params n l p" "length x = n" "bits x" "trace n l p x tr"
  shows "length tr \<le> card {s. length s = n + 1 \<and> bits s}"
proof -
  have inv: "distinct tr" "\<forall>s\<in>set tr. length s = n + 1 \<and> bits s"
    using trace_invariant [OF assms] by blast+
  have "length tr = card (set tr)" using inv(1) by (simp add: distinct_card)
  also have "\<dots> \<le> card {s. length s = n + 1 \<and> bits s}"
    using inv(2) by (intro card_mono finite_bit_vectors) auto
  finally show ?thesis .
qed

section \<open>The encoder returns, and the decoder inverts it\<close>

lemma trace_head:
  assumes "valid_params n l p" "length x = n" "bits x" "trace n l p x (s # tr)"
  shows "length s = n + 1" and "bits s"
  using trace_invariant [OF assms(1-3) assms(4)] by simp_all

text \<open>
  One scan of the encoder from position \<open>i\<close>: it returns, its result continues the
  history, the flag is set exactly when the scan was entered with it set or made a
  correction, and a scan that leaves it unset has changed nothing and found the period
  of every window from \<open>i\<close> on to be at least \<open>p\<close>.
\<close>

lemma encode_scan_trace:
  assumes v: "valid_params n l p" and x: "length x = n" "bits x"
  shows "trace n l p x (s # tr) \<Longrightarrow>
         \<exists>s' tr' found'.
           encode_scan n l p (ceil_log2 n) s i found = Inr (s', found')
           \<and> trace n l p x (s' # tr') \<and> length tr \<le> length tr'
           \<and> (found' \<longrightarrow> found \<or> length tr < length tr')
           \<and> (\<not> found' \<longrightarrow> \<not> found \<and> s' = s \<and> tr' = tr
                 \<and> (\<forall>i'. i \<le> i' \<and> i' < n + 2 - l \<longrightarrow>
                       (\<exists>m. ComputeMinPeriod (take l (drop i' s)) = Inr m \<and> p \<le> m)))"
proof (induction "n + 2 - l - i" arbitrary: s tr i found)
  case 0
  then have stop: "\<not> i < n + 2 - l" by arith
  then have "encode_scan n l p (ceil_log2 n) s i found = Inr (s, found)"
    by (subst encode_scan.simps) (simp only: if_False)
  then show ?case using "0.prems" stop by auto
next
  case (Suc d)
  then have i: "i < n + 2 - l" by simp
  have s: "length s = n + 1" "bits s" using trace_head [OF v x Suc.prems] by simp_all
  have l: "l = p + ceil_log2 n + 1" and p: "1 \<le> p" using v by (simp_all add: valid_params_def)
  have il: "i + l \<le> n + 1" using i by simp
  define w where "w = take l (drop i s)"
  have "w \<noteq> []" using s il l by (auto simp: w_def)
  then obtain m where m: "ComputeMinPeriod w = Inr m" "is_period w m"
    using ComputeMinPeriod_least [of w] by blast
  have chk: "\<not> length s < i + l" using s il by simp
  show ?case
  proof (cases "m < p")
    case True
    obtain s1 where s1: "correct_window n l p (ceil_log2 n) s i m = Inr s1"
      using correct_window_value [OF v s(1) il True] by blast
    have m1: "1 \<le> m" using m(2) by (simp add: is_period_def)
    have tr1: "trace n l p x (s1 # s # tr)"
      using Suc.prems il m1 True m(2) s1 unfolding w_def by (rule trace_step)
    have unfold: "encode_scan n l p (ceil_log2 n) s i found
                  = encode_scan n l p (ceil_log2 n) s1 (Suc i) True"
      using i chk m(1) True s1 unfolding w_def by (subst encode_scan.simps) simp
    have "d = n + 2 - l - Suc i" using Suc.hyps(2) by simp
    from Suc.hyps(1) [OF this tr1, of True]
    obtain s' tr' found' where r:
      "encode_scan n l p (ceil_log2 n) s1 (Suc i) True = Inr (s', found')"
      "trace n l p x (s' # tr')" "length (s # tr) \<le> length tr'"
      "\<not> found' \<longrightarrow> \<not> True" by blast
    have "found'" using r(4) by auto
    then have "encode_scan n l p (ceil_log2 n) s i found = Inr (s', found')
           \<and> trace n l p x (s' # tr') \<and> length tr \<le> length tr'
           \<and> (found' \<longrightarrow> found \<or> length tr < length tr')
           \<and> (\<not> found' \<longrightarrow> \<not> found \<and> s' = s \<and> tr' = tr
                 \<and> (\<forall>i'. i \<le> i' \<and> i' < n + 2 - l \<longrightarrow>
                       (\<exists>m. ComputeMinPeriod (take l (drop i' s)) = Inr m \<and> p \<le> m)))"
      using unfold r(1,2,3) by simp
    then show ?thesis by blast
  next
    case False
    have unfold: "encode_scan n l p (ceil_log2 n) s i found
                  = encode_scan n l p (ceil_log2 n) s (Suc i) found"
      using i chk m(1) False unfolding w_def by (subst encode_scan.simps) simp
    have "d = n + 2 - l - Suc i" using Suc.hyps(2) by simp
    from Suc.hyps(1) [OF this Suc.prems, of found]
    obtain s' tr' found' where r:
      "encode_scan n l p (ceil_log2 n) s (Suc i) found = Inr (s', found')"
      "trace n l p x (s' # tr')" "length tr \<le> length tr'"
      "found' \<longrightarrow> found \<or> length tr < length tr'"
      "\<not> found' \<longrightarrow> \<not> found \<and> s' = s \<and> tr' = tr
          \<and> (\<forall>i'. Suc i \<le> i' \<and> i' < n + 2 - l \<longrightarrow>
                (\<exists>m. ComputeMinPeriod (take l (drop i' s)) = Inr m \<and> p \<le> m))" by blast
    have here: "\<exists>m. ComputeMinPeriod (take l (drop i s)) = Inr m \<and> p \<le> m"
      using m(1) False unfolding w_def by auto
    have "\<exists>m. ComputeMinPeriod (take l (drop i' s)) = Inr m \<and> p \<le> m"
      if "\<not> found'" "i \<le> i'" "i' < n + 2 - l" for i'
      using that r(5) here by (cases "i' = i") auto
    then have "encode_scan n l p (ceil_log2 n) s i found = Inr (s', found')
           \<and> trace n l p x (s' # tr') \<and> length tr \<le> length tr'
           \<and> (found' \<longrightarrow> found \<or> length tr < length tr')
           \<and> (\<not> found' \<longrightarrow> \<not> found \<and> s' = s \<and> tr' = tr
                 \<and> (\<forall>i'. i \<le> i' \<and> i' < n + 2 - l \<longrightarrow>
                       (\<exists>m. ComputeMinPeriod (take l (drop i' s)) = Inr m \<and> p \<le> m)))"
      using unfold r(1,2,3,4,5) by simp
    then show ?thesis by blast
  qed
qed


text \<open>
  The loop of the encoder returns. The history never repeats a sequence, and there are
  finitely many bit sequences of length \<open>n + 1\<close>: each scan that sets the flag makes the
  history longer, so only finitely many scans do.
\<close>

lemma encode_loop_returns:
  assumes v: "valid_params n l p" and x: "length x = n" "bits x"
  shows "trace n l p x (s # tr) \<Longrightarrow>
         \<exists>y tr'. encode_loop n l p (ceil_log2 n) s = Some (Inr y)
           \<and> trace n l p x (y # tr')
           \<and> (\<forall>i. i < n + 2 - l \<longrightarrow>
                 (\<exists>m. ComputeMinPeriod (take l (drop i y)) = Inr m \<and> p \<le> m))"
proof (induction "card {s. length s = n + 1 \<and> bits s} - length (s # tr)"
        arbitrary: s tr rule: less_induct)
  case less
  from encode_scan_trace [OF v x less.prems, of 0 False]
  obtain s' tr' found' where r:
    "encode_scan n l p (ceil_log2 n) s 0 False = Inr (s', found')"
    "trace n l p x (s' # tr')" "length tr \<le> length tr'"
    "found' \<longrightarrow> length tr < length tr'"
    "\<not> found' \<longrightarrow> s' = s \<and> tr' = tr
       \<and> (\<forall>i'. i' < n + 2 - l \<longrightarrow>
             (\<exists>m. ComputeMinPeriod (take l (drop i' s)) = Inr m \<and> p \<le> m))"
    by auto
  show ?case
  proof (cases found')
    case True
    have loop: "encode_loop n l p (ceil_log2 n) s = encode_loop n l p (ceil_log2 n) s'"
      using r(1) True by (subst encode_loop.simps) simp
    have "length (s' # tr') \<le> card {s. length s = n + 1 \<and> bits s}"
      using trace_length_bound [OF v x r(2)] .
    then have "card {s. length s = n + 1 \<and> bits s} - length (s' # tr')
               < card {s. length s = n + 1 \<and> bits s} - length (s # tr)"
      using r(4) True by simp
    from less.hyps [OF this r(2)] show ?thesis unfolding loop .
  next
    case False
    have "encode_loop n l p (ceil_log2 n) s = Some (Inr s')"
      using r(1) False by (subst encode_loop.simps) simp
    then show ?thesis using r(2,5) False by blast
  qed
qed

lemma encode_returns:
  assumes v: "valid_params n l p" and x: "length x = n" "bits x"
  shows "\<exists>y tr. encode x n l p = Some (Inr y) \<and> trace n l p x (y # tr)
           \<and> (\<forall>i. i < n + 2 - l \<longrightarrow>
                 (\<exists>m. ComputeMinPeriod (take l (drop i y)) = Inr m \<and> p \<le> m))"
  unfolding encode_def by (rule encode_loop_returns [OF v x trace_start])

text \<open>The decoder, started on the head of a history, returns the input.\<close>

lemma decode_loop_trace:
  assumes v: "valid_params n l p" and x: "length x = n" "bits x"
  shows "trace n l p x tr \<Longrightarrow> decode_loop n l p (ceil_log2 n) (hd tr) = Some (Inr x)"
proof (induction rule: trace.induct)
  case trace_start
  then show ?case using x by (subst decode_loop.simps) (simp add: nth_append)
next
  case (trace_step s tr i q s')
  have s: "length s = n + 1" "bits s" using trace_head [OF v x trace_step.hyps(1)] by simp_all
  note res = correction_result [OF v s trace_step.hyps(2-6)]
  have "decode_loop n l p (ceil_log2 n) s' = decode_loop n l p (ceil_log2 n) s"
    using res by (subst decode_loop.simps) simp
  then show ?case using trace_step.IH by simp
qed

text \<open>Every value the decoder's loop reaches from the head of a history heads a history.\<close>

lemma decode_reach_trace:
  assumes v: "valid_params n l p" and x: "length x = n" "bits x"
    and y: "trace n l p x (y # tr)"
  shows "decode_reach n l p y s \<Longrightarrow> \<exists>tr'. trace n l p x (s # tr')"
proof (induction rule: decode_reach.induct)
  case reach_start
  then show ?case using y by blast
next
  case (reach_step s s')
  then obtain tr' where t: "trace n l p x (s # tr')" by blast
  from t show ?case
  proof (cases rule: trace.cases)
    case trace_start
    then have "s ! n = 1" using x by (simp add: nth_append)
    then show ?thesis using reach_step.hyps(3) by simp
  next
    case (trace_step s0 tr0 i q)
    have s0: "length s0 = n + 1" "bits s0" using trace_head [OF v x trace_step(2)] by simp_all
    have "decode_step n l p (ceil_log2 n) s = Inr s0"
      using correction_result(4) [OF v s0 trace_step(3-7)] .
    then have "s' = s0" using reach_step.hyps(4) by simp
    then show ?thesis using trace_step(2) by blast
  qed
qed


text \<open>A correction that passes its assertion fixes the relation between the parameters.\<close>

lemma toBinary_loop_length:
  "toBinary_loop v N j out = Inr b \<Longrightarrow> length b = length out"
proof (induction v N j out rule: toBinary_loop.induct)
  case (1 i N j out)
  show ?case
  proof (cases "j < N")
    case True
    then obtain c where c: "bit_at i j = Inr c"
      using "1.prems" by (subst (asm) toBinary_loop.simps) (auto split: sum.splits)
    then have "toBinary_loop i N (Suc j) (out[j := c]) = Inr b"
      using "1.prems" True by (subst (asm) toBinary_loop.simps) simp
    then have "length b = length (out[j := c])" using True c by (intro "1.IH") auto
    then show ?thesis by simp
  next
    case False
    then show ?thesis using "1.prems" by (subst (asm) toBinary_loop.simps) simp
  qed
qed

lemma toBinary_length: "toBinary v N = Inr b \<Longrightarrow> length b = N"
  using toBinary_loop_length [of v N 0 "replicate N 0" b] by (simp add: toBinary_def)

lemma zero_fill_length: "zero_fill out j hi = Inr out' \<Longrightarrow> length out' = length out"
proof (induction out j hi rule: zero_fill.induct)
  case (1 out j hi)
  show ?case
  proof (cases "j < hi")
    case True
    then have "\<not> length out \<le> j" and "zero_fill (out[j := 0]) (Suc j) hi = Inr out'"
      using "1.prems" by (subst (asm) zero_fill.simps, auto split: if_splits)+
    then show ?thesis using "1.IH" [OF True] by simp
  next
    case False
    then show ?thesis using "1.prems" by (subst (asm) zero_fill.simps) simp
  qed
qed

lemma correct_window_params:
  assumes "correct_window n l p lg out i period = Inr out'" "length out = n + 1"
  shows "l = p + lg + 1"
proof -
  define out1 where "out1 = take (i + p) out @ drop (i + l) out"
  have ok: "p \<le> l" "i + l \<le> length out"
    using assms(1) by (auto simp: correct_window_def split: if_splits)
  then have len1: "length out1 + (l - p) = n + 1" using assms(2) by (simp add: out1_def)
  obtain out2 b where o: "zero_fill (out1[i + period := 1]) (i + period + 1) (i + p) = Inr out2"
      "toBinary (int i) lg = Inr b" "length (out2 @ b @ [0]) = n + 1"
    using assms(1) ok unfolding correct_window_def Let_def out1_def [symmetric]
    by (auto split: if_splits sum.splits)
  have "length out2 = length out1" using zero_fill_length [OF o(1)] by simp
  moreover have "length b = lg" using o(2) by (rule toBinary_length)
  ultimately show ?thesis using o(3) len1 ok by simp
qed

lemma encode_scan_no_correction:
  assumes "\<not> (1 \<le> p \<and> l = p + lg + 1)" "length s = n + 1"
  shows "encode_scan n l p lg s i found = Inr (s', found') \<Longrightarrow> s' = s \<and> found' = found"
proof (induction "n + 2 - l - i" arbitrary: i)
  case 0
  then have "\<not> i < n + 2 - l" by arith
  then show ?case using "0.prems" by (subst (asm) encode_scan.simps) simp
next
  case (Suc d)
  then have i: "i < n + 2 - l" by simp
  obtain m where m: "ComputeMinPeriod (take l (drop i s)) = Inr m" "\<not> length s < i + l"
    using Suc.prems i by (subst (asm) encode_scan.simps) (auto split: if_splits sum.splits)
  have "\<not> m < p"
  proof
    assume mp: "m < p"
    then obtain s1 where "correct_window n l p lg s i m = Inr s1"
      using Suc.prems i m by (subst (asm) encode_scan.simps) (auto split: sum.splits)
    then have "l = p + lg + 1" using assms(2) by (rule correct_window_params)
    then show False using assms(1) mp by simp
  qed
  then have "encode_scan n l p lg s (Suc i) found = Inr (s', found')"
    using Suc.prems i m by (subst (asm) encode_scan.simps) simp
  moreover have "d = n + 2 - l - Suc i" using Suc.hyps(2) by simp
  ultimately show ?case using Suc.hyps(1) by blast
qed

lemma encode_no_correction:
  assumes "\<not> (1 \<le> p \<and> l = p + ceil_log2 n + 1)" "length x = n"
    and "encode x n l p = Some (Inr y)"
  shows "y = x @ [1]"
proof -
  have len: "length (x @ [1]) = n + 1" using assms(2) by simp
  obtain s' found' where sc: "encode_scan n l p (ceil_log2 n) (x @ [1]) 0 False = Inr (s', found')"
    using assms(3) unfolding encode_def
    by (subst (asm) encode_loop.simps) (auto split: sum.splits)
  then have "s' = x @ [1]" "\<not> found'"
    using encode_scan_no_correction [OF assms(1) len sc] by simp_all
  then show ?thesis using assms(3) sc unfolding encode_def
    by (subst (asm) encode_loop.simps) simp
qed

section \<open>Properties of the encoder and the decoder\<close>

lemma decode_reach_stuck: "decode_reach n l p y s \<Longrightarrow> y ! n \<noteq> 0 \<Longrightarrow> s = y"
  by (induction rule: decode_reach.induct) auto

text \<open>
  C1. The claim is the round trip \<open>decode (encode x) = x\<close> for every \<open>p \<ge> 1\<close> and every
  \<open>l \<ge> p + ceil_log2 n + 1\<close>, the bound the program's driver names \<^verbatim>\<open>min_l\<close> and asserts
  (\<^verbatim>\<open>assert(l >= min_l)\<close>). The code does not deliver it: for \<open>n = 6\<close>, \<open>l = 7\<close>, \<open>p = 2\<close>,
  inside that bound, \<open>encode\<close> on the input 111111 erases five elements, appends four, and
  stops at its own \<^verbatim>\<open>assert(out.size() == n + 1)\<close>; there is no sequence to decode.
\<close>

theorem decode_encode_failing_input:
  "2 + ceil_log2 6 + 1 \<le> (7::nat) \<and> (1::nat) \<le> 2 \<and> length [1, 1, 1, 1, 1, 1 :: int] = 6
   \<and> bits [1, 1, 1, 1, 1, 1]
   \<and> encode [1, 1, 1, 1, 1, 1] 6 7 2 = Some (Inl Assertion_Failed)"
proof -
  have "encode_scan 6 7 2 (ceil_log2 6) ([1, 1, 1, 1, 1, 1] @ [1]) 0 False = Inl Assertion_Failed"
    by code_simp
  then have "encode [1, 1, 1, 1, 1, 1] 6 7 2 = Some (Inl Assertion_Failed)"
    unfolding encode_def by (subst encode_loop.simps) simp
  moreover have "2 + ceil_log2 6 + 1 \<le> (7::nat)" by code_simp
  moreover have "bits [1, 1, 1, 1, 1, 1]" by code_simp
  ultimately show ?thesis by simp
qed

text \<open>
  Where the code does deliver the round trip: for \<open>l = p + ceil_log2 n + 1\<close> exactly, the
  length the driver runs with, \<open>encode\<close> returns on every bit sequence \<open>x\<close> of length \<open>n\<close> and
  \<open>decode\<close> returns \<open>x\<close> from its result.
\<close>

theorem decode_encode_roundtrip:
  assumes "valid_params n l p" "length x = n" "bits x"
  shows "\<exists>y. encode x n l p = Some (Inr y) \<and> decode y n l p = Some (Inr x)"
proof -
  obtain y tr where y: "encode x n l p = Some (Inr y)" "trace n l p x (y # tr)"
    using encode_returns [OF assms] by blast
  have "decode y n l p = Some (Inr x)"
    unfolding decode_def using decode_loop_trace [OF assms y(2)] by simp
  then show ?thesis using y(1) by simp
qed

theorem decode_encode_roundtrip_witness:
  "valid_params 20 20 14
   \<and> length [1, 0, 1, 0, 1, 0, 1, 0, 1, 0, 1, 0, 1, 0, 1, 0, 1, 0, 1, 0 :: int] = 20
   \<and> bits [1, 0, 1, 0, 1, 0, 1, 0, 1, 0, 1, 0, 1, 0, 1, 0, 1, 0, 1, 0]
   \<and> (\<exists>y. encode [1, 0, 1, 0, 1, 0, 1, 0, 1, 0, 1, 0, 1, 0, 1, 0, 1, 0, 1, 0] 20 20 14 = Some (Inr y)
          \<and> decode y 20 20 14 = Some (Inr [1, 0, 1, 0, 1, 0, 1, 0, 1, 0, 1, 0, 1, 0, 1, 0, 1, 0, 1, 0]))"
proof -
  have v: "valid_params 20 20 14" by (simp add: valid_params_def ceil_log2.simps)
  have b: "bits [1, 0, 1, 0, 1, 0, 1, 0, 1, 0, 1, 0, 1, 0, 1, 0, 1, 0, 1, 0]" by (simp add: bits_def)
  have len: "length [1, 0, 1, 0, 1, 0, 1, 0, 1, 0, 1, 0, 1, 0, 1, 0, 1, 0, 1, 0 :: int] = 20" by simp
  show ?thesis using decode_encode_roundtrip [OF v len b] v b len by blast
qed

text \<open>
  C2. The claim is that every window of length \<open>l\<close> of \<open>encode x\<close> has minimal period at
  least \<open>p\<close>, for every \<open>p \<ge> 1\<close> and every \<open>l \<ge> p + ceil_log2 n + 1\<close>. The code does not
  deliver it: for \<open>n = 8\<close>, \<open>l = 7\<close>, \<open>p = 2\<close> the input 00000000 has a window of period 1,
  and \<open>encode\<close> stops at its own assertion on the length while correcting it, so the
  window is never brought to period \<open>p\<close>.
\<close>

theorem encode_period_bound_failing_input:
  "2 + ceil_log2 8 + 1 \<le> (7::nat) \<and> (1::nat) \<le> 2 \<and> length [0, 0, 0, 0, 0, 0, 0, 0 :: int] = 8
   \<and> bits [0, 0, 0, 0, 0, 0, 0, 0]
   \<and> encode [0, 0, 0, 0, 0, 0, 0, 0] 8 7 2 = Some (Inl Assertion_Failed)"
proof -
  have "encode_scan 8 7 2 (ceil_log2 8) ([0, 0, 0, 0, 0, 0, 0, 0] @ [1]) 0 False
        = Inl Assertion_Failed"
    by code_simp
  then have "encode [0, 0, 0, 0, 0, 0, 0, 0] 8 7 2 = Some (Inl Assertion_Failed)"
    unfolding encode_def by (subst encode_loop.simps) simp
  moreover have "2 + ceil_log2 8 + 1 \<le> (7::nat)" by code_simp
  moreover have "bits [0, 0, 0, 0, 0, 0, 0, 0]" by code_simp
  ultimately show ?thesis by simp
qed

text \<open>
  Where the code does deliver the period bound: for \<open>l = p + ceil_log2 n + 1\<close> exactly,
  \<open>encode\<close> returns a sequence \<open>y\<close> on every bit sequence of length \<open>n\<close>, and for every window
  start \<open>i < (n + 1) - (l - 1)\<close> \<open>ComputeMinPeriod\<close> of the window of length \<open>l\<close> at \<open>i\<close> is
  at least \<open>p\<close>; no period of that window is smaller than \<open>p\<close>.
\<close>

theorem encode_period_bound:
  assumes "valid_params n l p" "length x = n" "bits x"
  shows "\<exists>y. encode x n l p = Some (Inr y)
           \<and> (\<forall>i. i < n + 2 - l \<longrightarrow>
                 (\<exists>m. ComputeMinPeriod (take l (drop i y)) = Inr m \<and> p \<le> m
                    \<and> (\<forall>q. is_period (take l (drop i y)) q \<longrightarrow> p \<le> q)))"
proof -
  obtain y where y: "encode x n l p = Some (Inr y)"
    "\<And>i. i < n + 2 - l \<Longrightarrow> \<exists>m. ComputeMinPeriod (take l (drop i y)) = Inr m \<and> p \<le> m"
    using encode_returns [OF assms] by blast
  have "\<exists>m. ComputeMinPeriod (take l (drop i y)) = Inr m \<and> p \<le> m
            \<and> (\<forall>q. is_period (take l (drop i y)) q \<longrightarrow> p \<le> q)"
    if i: "i < n + 2 - l" for i
  proof -
    obtain m where m: "ComputeMinPeriod (take l (drop i y)) = Inr m" "p \<le> m"
      using y(2) [OF i] by blast
    have "take l (drop i y) \<noteq> []"
    proof
      assume "take l (drop i y) = []"
      then show False using m(1) ComputeMinPeriod_Nil by (simp only:) simp
    qed
    then obtain m' where m': "ComputeMinPeriod (take l (drop i y)) = Inr m'"
      "\<And>q. is_period (take l (drop i y)) q \<Longrightarrow> m' \<le> q"
      using ComputeMinPeriod_least [of "take l (drop i y)"] by blast
    then have "p \<le> q" if per: "is_period (take l (drop i y)) q" for q
      using m m'(2) [OF per] by simp
    then show ?thesis using m by blast
  qed
  then show ?thesis using y(1) by blast
qed

theorem encode_period_bound_witness:
  "valid_params 20 20 14
   \<and> length [1, 1, 1, 1, 1, 1, 1, 1, 1, 1, 1, 1, 1, 1, 1, 1, 1, 1, 1, 1 :: int] = 20
   \<and> bits [1, 1, 1, 1, 1, 1, 1, 1, 1, 1, 1, 1, 1, 1, 1, 1, 1, 1, 1, 1]
   \<and> (0::nat) < 20 + 2 - 20
   \<and> (\<exists>y. encode [1, 1, 1, 1, 1, 1, 1, 1, 1, 1, 1, 1, 1, 1, 1, 1, 1, 1, 1, 1] 20 20 14 = Some (Inr y)
          \<and> (\<exists>m. ComputeMinPeriod (take 20 (drop 0 y)) = Inr m \<and> 14 \<le> m))"
proof -
  have v: "valid_params 20 20 14" by (simp add: valid_params_def ceil_log2.simps)
  have b: "bits [1, 1, 1, 1, 1, 1, 1, 1, 1, 1, 1, 1, 1, 1, 1, 1, 1, 1, 1, 1]" by (simp add: bits_def)
  have len: "length [1, 1, 1, 1, 1, 1, 1, 1, 1, 1, 1, 1, 1, 1, 1, 1, 1, 1, 1, 1 :: int] = 20" by simp
  have i: "(0::nat) < 20 + 2 - 20" by simp
  show ?thesis using encode_period_bound [OF v len b] v b len i by blast
qed

text \<open>
  C3. The claim is that \<open>encode x\<close> has length \<open>n + 1\<close> for every \<open>p \<ge> 1\<close> and every
  \<open>l \<ge> p + ceil_log2 n + 1\<close>. The code does not deliver it: for \<open>n = 7\<close>, \<open>l = 7\<close>, \<open>p = 2\<close>
  the working sequence of \<open>encode\<close> on 1111111 has 7 elements after the first correction,
  not 8, and \<open>encode\<close> stops at its own \<^verbatim>\<open>assert(out.size() == n + 1)\<close>.
\<close>

theorem encode_length_failing_input:
  "2 + ceil_log2 7 + 1 \<le> (7::nat) \<and> (1::nat) \<le> 2 \<and> length [1, 1, 1, 1, 1, 1, 1 :: int] = 7
   \<and> bits [1, 1, 1, 1, 1, 1, 1]
   \<and> encode [1, 1, 1, 1, 1, 1, 1] 7 7 2 = Some (Inl Assertion_Failed)"
proof -
  have "encode_scan 7 7 2 (ceil_log2 7) ([1, 1, 1, 1, 1, 1, 1] @ [1]) 0 False
        = Inl Assertion_Failed"
    by code_simp
  then have "encode [1, 1, 1, 1, 1, 1, 1] 7 7 2 = Some (Inl Assertion_Failed)"
    unfolding encode_def by (subst encode_loop.simps) simp
  moreover have "2 + ceil_log2 7 + 1 \<le> (7::nat)" by code_simp
  moreover have "bits [1, 1, 1, 1, 1, 1, 1]" by code_simp
  ultimately show ?thesis by simp
qed

text \<open>
  Where the code does deliver the length: for \<open>l = p + ceil_log2 n + 1\<close> exactly, \<open>encode\<close>
  returns a sequence of length \<open>n + 1\<close> on every bit sequence of length \<open>n\<close>.
\<close>

theorem encode_length:
  assumes "valid_params n l p" "length x = n" "bits x"
  shows "\<exists>y. encode x n l p = Some (Inr y) \<and> length y = n + 1"
proof -
  obtain y tr where y: "encode x n l p = Some (Inr y)" "trace n l p x (y # tr)"
    using encode_returns [OF assms] by blast
  then show ?thesis using trace_head(1) [OF assms y(2)] by simp
qed

theorem encode_length_witness:
  "valid_params 6 6 2 \<and> length [1, 1, 1, 1, 1, 1 :: int] = 6 \<and> bits [1, 1, 1, 1, 1, 1]
   \<and> (\<exists>y. encode [1, 1, 1, 1, 1, 1] 6 6 2 = Some (Inr y) \<and> length y = 6 + 1)"
proof -
  have v: "valid_params 6 6 2" by (simp add: valid_params_def ceil_log2.simps)
  have b: "bits [1, 1, 1, 1, 1, 1]" by (simp add: bits_def)
  have len: "length [1, 1, 1, 1, 1, 1 :: int] = 6" by simp
  show ?thesis using encode_length [OF v len b] v b len by blast
qed

text \<open>
  C4. For \<open>n = 20\<close>, \<open>l = 20\<close>, \<open>p = 14\<close> the loop of \<open>encode\<close> terminates on every bit
  sequence of length 20: \<open>encode\<close> returns a sequence.
\<close>

theorem encode_terminates_validated:
  assumes "length x = 20" "bits x"
  shows "\<exists>y. encode x 20 20 14 = Some (Inr y)"
proof -
  have v: "valid_params 20 20 14" by (simp add: valid_params_def ceil_log2.simps)
  show ?thesis using encode_returns [OF v assms] by blast
qed

theorem encode_terminates_validated_witness:
  "length [0, 0, 0, 0, 0, 0, 0, 0, 0, 0, 0, 0, 0, 0, 0, 0, 0, 0, 0, 0 :: int] = 20
   \<and> bits [0, 0, 0, 0, 0, 0, 0, 0, 0, 0, 0, 0, 0, 0, 0, 0, 0, 0, 0, 0]
   \<and> (\<exists>y. encode [0, 0, 0, 0, 0, 0, 0, 0, 0, 0, 0, 0, 0, 0, 0, 0, 0, 0, 0, 0] 20 20 14 = Some (Inr y))"
proof -
  have b: "bits [0, 0, 0, 0, 0, 0, 0, 0, 0, 0, 0, 0, 0, 0, 0, 0, 0, 0, 0, 0]" by (simp add: bits_def)
  have len: "length [0, 0, 0, 0, 0, 0, 0, 0, 0, 0, 0, 0, 0, 0, 0, 0, 0, 0, 0, 0 :: int] = 20" by simp
  show ?thesis using encode_terminates_validated [OF len b] b len by blast
qed


text \<open>
  C5. The claim is that a correction step leaves the length at \<open>n + 1\<close> whenever
  \<open>l \<ge> p + ceil_log2 n + 1\<close>, which is what the step's own \<^verbatim>\<open>assert(out.size() == n + 1)\<close>
  and the driver's \<^verbatim>\<open>assert(l >= min_l)\<close> state together. The code does not deliver it:
  for \<open>n = 6\<close>, \<open>p = 2\<close>, \<open>l = 7\<close> the step at \<open>i = 0\<close> on 1111111 erases 5 elements and
  appends 4, and the sequence has 6 elements when the assertion is reached.
\<close>

theorem correct_window_length_failing_input:
  "2 + ceil_log2 6 + 1 \<le> (7::nat) \<and> length [1, 1, 1, 1, 1, 1, 1 :: int] = 6 + 1
   \<and> correct_window 6 7 2 (ceil_log2 6) [1, 1, 1, 1, 1, 1, 1] 0 1 = Inl Assertion_Failed"
  by code_simp

text \<open>
  Where the step does keep the length: for \<open>l = p + ceil_log2 n + 1\<close> exactly, a correction
  at a window start \<open>i\<close> with \<open>i + l \<le> n + 1\<close> and a period below \<open>p\<close>, applied to a sequence
  of length \<open>n + 1\<close>, returns a sequence of length \<open>n + 1\<close>.
\<close>

theorem correct_window_keeps_length:
  assumes "valid_params n l p" "length out = n + 1" "i + l \<le> n + 1" "period < p"
  shows "\<exists>out'. correct_window n l p (ceil_log2 n) out i period = Inr out' \<and> length out' = n + 1"
proof -
  obtain out' where c: "correct_window n l p (ceil_log2 n) out i period = Inr out'"
    using correct_window_value [OF assms] by blast
  then have "length out' = n + 1"
    by (auto simp: correct_window_def Let_def split: if_splits sum.splits)
  then show ?thesis using c by simp
qed

theorem correct_window_keeps_length_witness:
  "valid_params 6 6 2 \<and> length [1, 1, 1, 1, 1, 1, 1 :: int] = 6 + 1 \<and> (0::nat) + 6 \<le> 6 + 1
   \<and> (1::nat) < 2
   \<and> (\<exists>out'. correct_window 6 6 2 (ceil_log2 6) [1, 1, 1, 1, 1, 1, 1] 0 1 = Inr out'
          \<and> length out' = 6 + 1)"
proof -
  have v: "valid_params 6 6 2" by (simp add: valid_params_def ceil_log2.simps)
  have len: "length [1, 1, 1, 1, 1, 1, 1 :: int] = 6 + 1" by simp
  have i: "(0::nat) + 6 \<le> 6 + 1" by simp
  have q: "(1::nat) < 2" by simp
  show ?thesis using correct_window_keeps_length [OF v len i q] v len i q by blast
qed

text \<open>
  C6. Let \<open>y\<close> be returned by \<open>encode\<close> on a bit sequence \<open>x\<close> of length \<open>n\<close>, and let \<open>s\<close> be
  the sequence at the head of any iteration of the loop of \<open>decode\<close> on \<open>y\<close> with the same
  \<open>n\<close>, \<open>l\<close>, \<open>p\<close>. Then the index is read, and the backward scan from \<open>index + p - 1\<close>
  stops inside the vector at a position \<open>j\<close> with \<open>index \<le> j\<close> that holds a 1.
\<close>

theorem decode_scan_finds_marker:
  assumes "0 < n" "n + 1 < 2 ^ 31" "length x = n" "bits x"
    and "encode x n l p = Some (Inr y)"
    and "decode_reach n l p y s" "s ! n = 0"
  shows "\<exists>index in2 j. pop_index (ceil_log2 n) s = Inr (index, in2)
           \<and> scan_back in2 (nat (index + int p - 1)) = Inr j
           \<and> index \<le> int j \<and> int j \<le> index + int p - 1 \<and> in2 ! j = 1"
proof (cases "1 \<le> p \<and> l = p + ceil_log2 n + 1")
  case True
  then have v: "valid_params n l p" using assms(1,2) by (simp add: valid_params_def)
  note x = assms(3,4)
  obtain tr where "trace n l p x (y # tr)"
    using encode_returns [OF v x] assms(5) by auto
  then obtain tr' where "trace n l p x (s # tr')"
    using decode_reach_trace [OF v x _ assms(6)] by blast
  then show ?thesis
  proof (cases rule: trace.cases)
    case trace_start
    then have "s ! n = 1" using x by (simp add: nth_append)
    then show ?thesis using assms(7) by simp
  next
    case (trace_step s0 tr0 i q)
    have s0: "length s0 = n + 1" using trace_head(1) [OF v x trace_step(2)] .
    define in2 where "in2 = take (i + q) s0 @ [1] @ replicate (p - q - 1) 0 @ drop (i + l) s0"
    have s: "s = in2 @ bin_of (int i) (ceil_log2 n) @ [0]"
      using correct_window_value [OF v s0 trace_step(3,5)] trace_step(7) by (simp add: in2_def)
    note d = decode_after_correction(1-3) [OF v s0 trace_step(3-6), folded in2_def]
    have "nat (int i + int p - 1) = i + p - 1" by simp
    then have "pop_index (ceil_log2 n) s = Inr (int i, in2)
           \<and> scan_back in2 (nat (int i + int p - 1)) = Inr (i + q)
           \<and> int i \<le> int (i + q) \<and> int (i + q) \<le> int i + int p - 1 \<and> in2 ! (i + q) = 1"
      using d trace_step(5) unfolding s by simp
    then show ?thesis by blast
  qed
next
  case False
  then have "y = x @ [1]" using assms(3,5) by (rule encode_no_correction)
  then have "y ! n \<noteq> 0" using assms(3) by (simp add: nth_append)
  then have "s = y" using assms(6) by (intro decode_reach_stuck)
  then show ?thesis using \<open>y ! n \<noteq> 0\<close> assms(7) by simp
qed

theorem decode_scan_finds_marker_witness:
  "(0::nat) < 6 \<and> (6::nat) + 1 < 2 ^ 31 \<and> length [1, 1, 1, 1, 1, 1 :: int] = 6
   \<and> bits [1, 1, 1, 1, 1, 1]
   \<and> encode [1, 1, 1, 1, 1, 1] 6 6 2 = Some (Inr [1, 1, 1, 0, 0, 0, 0])
   \<and> decode_reach 6 6 2 [1, 1, 1, 0, 0, 0, 0] [1, 1, 1, 0, 0, 0, 0]
   \<and> [1, 1, 1, 0, 0, 0, 0] ! 6 = (0::int)
   \<and> (\<exists>index in2 j. pop_index (ceil_log2 6) [1, 1, 1, 0, 0, 0, 0] = Inr (index, in2)
           \<and> scan_back in2 (nat (index + int 2 - 1)) = Inr j
           \<and> index \<le> int j \<and> int j \<le> index + int 2 - 1 \<and> in2 ! j = 1)"
proof -
  have n: "(0::nat) < 6" "(6::nat) + 1 < 2 ^ 31" by simp_all
  have len: "length [1, 1, 1, 1, 1, 1 :: int] = 6" by simp
  have b: "bits [1, 1, 1, 1, 1, 1]" by (simp add: bits_def)
  have s1: "encode_scan 6 6 2 (ceil_log2 6) [1, 1, 1, 1, 1, 1, 1] 0 False
            = Inr ([1, 1, 1, 0, 0, 0, 0], True)"
    by code_simp
  have s2: "encode_scan 6 6 2 (ceil_log2 6) [1, 1, 1, 0, 0, 0, 0] 0 False
            = Inr ([1, 1, 1, 0, 0, 0, 0], False)"
    by code_simp
  have "encode_loop 6 6 2 (ceil_log2 6) [1, 1, 1, 0, 0, 0, 0] = Some (Inr [1, 1, 1, 0, 0, 0, 0])"
    by (subst encode_loop.simps) (simp add: s2)
  then have e: "encode [1, 1, 1, 1, 1, 1] 6 6 2 = Some (Inr [1, 1, 1, 0, 0, 0, 0])"
    unfolding encode_def by (subst encode_loop.simps) (simp add: s1)
  have r: "decode_reach 6 6 2 [1, 1, 1, 0, 0, 0, 0] [1, 1, 1, 0, 0, 0, 0]" by (rule reach_start)
  have z: "[1, 1, 1, 0, 0, 0, 0] ! 6 = (0::int)" by simp
  show ?thesis using decode_scan_finds_marker [OF n len b e r z] n len b e r z by blast
qed

end
